theory Spec2Isabelle
  imports Main "HOL-Library.Word"
begin

section \<open>Types of the frontend (frontend\_agglomerate.h)\<close>

text \<open>
  \<^verbatim>\<open>typedef uint64_t SegID; typedef uint32_t GtID;\<close>
  \<^verbatim>\<open>typedef std::vector<std::vector<std::vector<uint64_t>>> UnmergeGroupListTupleList;\<close>
\<close>

type_synonym SegID = "64 word"
type_synonym GtID = "32 word"
type_synonym GroupId = SegID
type_synonym GroupIdList = "GroupId list"
type_synonym AntiGroupListTuple = "GroupIdList list"
type_synonym UnmergeGroupListTupleList = "SegID list list list"

text \<open>
  Undefined behaviour and failed assertions of the C++ are values of the model: a read
  through a null or dangling pointer, an access outside an array or vector, a failed
  \<^verbatim>\<open>assert\<close>, and the overflow of a signed counter. So is the exception of a vector
  that cannot grow to the length asked for (\<^verbatim>\<open>std::length_error\<close> above
  \<^verbatim>\<open>max_size()\<close>, \<^verbatim>\<open>std::bad_alloc\<close> when memory runs out), which nothing in the
  frontend catches.
\<close>

datatype fault = NullPointer | OutOfBounds | AssertFailed | SignedOverflow | AllocationFailed

section \<open>UnmergeTracker\<close>

text \<open>
  The private members: \<^verbatim>\<open>_segid_to_groupid_list\<close>, \<^verbatim>\<open>_groupid_to_anti_list\<close>
  (both \<^verbatim>\<open>std::unordered_map\<close>, only ever looked up by key) and \<^verbatim>\<open>_is_empty\<close>.
\<close>

record UnmergeTracker =
  segid_to_groupid_list :: "SegID \<rightharpoonup> GroupIdList"
  groupid_to_anti_list :: "GroupId \<rightharpoonup> GroupIdList"
  is_empty :: bool

text \<open>
  \<^verbatim>\<open>m[key]\<close> on an unordered map inserts an empty vector when the key is absent, and
  yields the stored vector.
\<close>

definition at_or_empty :: "(SegID \<rightharpoonup> GroupIdList) \<Rightarrow> SegID \<Rightarrow> GroupIdList" where
  "at_or_empty m k = (case m k of None \<Rightarrow> [] | Some l \<Rightarrow> l)"

text \<open>\<^verbatim>\<open>for (auto segid : segid_list) _segid_to_groupid_list[segid].push_back(groupid);\<close>\<close>

fun add_segids :: "GroupId \<Rightarrow> SegID list \<Rightarrow> (SegID \<rightharpoonup> GroupIdList) \<Rightarrow> (SegID \<rightharpoonup> GroupIdList)" where
  "add_segids groupid [] m = m"
| "add_segids groupid (segid # rest) m =
     add_segids groupid rest (m(segid \<mapsto> at_or_empty m segid @ [groupid]))"

text \<open>
  The first inner loop of the constructor, over the coherent groups of one tuple. It
  returns the updated map and \<^verbatim>\<open>mutex_group_id_list\<close>. \<^verbatim>\<open>segid_list[0]\<close> on an empty
  vector reads outside it.
\<close>

fun add_groups ::
  "AntiGroupListTuple \<Rightarrow> (SegID \<rightharpoonup> GroupIdList) \<Rightarrow> GroupIdList
    \<Rightarrow> fault + ((SegID \<rightharpoonup> GroupIdList) \<times> GroupIdList)" where
  "add_groups [] m mutex_group_id_list = Inr (m, mutex_group_id_list)"
| "add_groups (segid_list # rest) m mutex_group_id_list =
     (case segid_list of
        [] \<Rightarrow> Inl OutOfBounds
      | groupid # _ \<Rightarrow>
          add_groups rest (add_segids groupid segid_list m) (mutex_group_id_list @ [groupid]))"

text \<open>
  The second inner loop: for every group id of the tuple, the other ids of the tuple
  (those that differ from it) are appended to its anti list.
\<close>

definition others_of :: "GroupId \<Rightarrow> GroupIdList \<Rightarrow> GroupIdList" where
  "others_of groupid mutex_group_id_list = filter (\<lambda>other. other \<noteq> groupid) mutex_group_id_list"

fun add_antis :: "GroupIdList \<Rightarrow> GroupIdList \<Rightarrow> (GroupId \<rightharpoonup> GroupIdList) \<Rightarrow> (GroupId \<rightharpoonup> GroupIdList)" where
  "add_antis [] mutex_group_id_list anti = anti"
| "add_antis (groupid # rest) mutex_group_id_list anti =
     add_antis rest mutex_group_id_list
       (anti(groupid \<mapsto> at_or_empty anti groupid @ others_of groupid mutex_group_id_list))"

text \<open>The outer loop over the tuples of the input list.\<close>

fun add_tuples :: "UnmergeGroupListTupleList \<Rightarrow> UnmergeTracker \<Rightarrow> fault + UnmergeTracker" where
  "add_tuples [] t = Inr t"
| "add_tuples (anti_group_list_tuple # rest) t =
     (case add_groups anti_group_list_tuple (segid_to_groupid_list t) [] of
        Inl e \<Rightarrow> Inl e
      | Inr (m, mutex_group_id_list) \<Rightarrow>
          add_tuples rest
            (t\<lparr>segid_to_groupid_list := m,
               groupid_to_anti_list :=
                 add_antis mutex_group_id_list mutex_group_id_list (groupid_to_anti_list t)\<rparr>))"

text \<open>The constructor \<^verbatim>\<open>UnmergeTracker(const UnmergeGroupListTupleList& input_list)\<close>.\<close>

definition new_UnmergeTracker :: "UnmergeGroupListTupleList \<Rightarrow> fault + UnmergeTracker" where
  "new_UnmergeTracker input_list =
     (if length input_list = 0
      then Inr \<lparr>segid_to_groupid_list = Map.empty, groupid_to_anti_list = Map.empty,
                is_empty = True\<rparr>
      else add_tuples input_list
             \<lparr>segid_to_groupid_list = Map.empty, groupid_to_anti_list = Map.empty,
              is_empty = False\<rparr>)"

text \<open>
  \<^verbatim>\<open>getGroupIDs\<close> and \<^verbatim>\<open>getAntiGroupIDs\<close> write \<^verbatim>\<open>*ret\<close> only when the key is in the
  map; otherwise the caller's vector keeps what it held.
\<close>

definition getGroupIDs :: "UnmergeTracker \<Rightarrow> SegID \<Rightarrow> GroupIdList \<Rightarrow> GroupIdList" where
  "getGroupIDs t segid ret = (case segid_to_groupid_list t segid of None \<Rightarrow> ret | Some l \<Rightarrow> l)"

definition getAntiGroupIDs :: "UnmergeTracker \<Rightarrow> GroupId \<Rightarrow> GroupIdList \<Rightarrow> GroupIdList" where
  "getAntiGroupIDs t segid ret = (case groupid_to_anti_list t segid of None \<Rightarrow> ret | Some l \<Rightarrow> l)"

text \<open>
  The two innermost loops of \<^verbatim>\<open>isValidMerge\<close>: some \<^verbatim>\<open>group_b\<close> equals some
  \<^verbatim>\<open>anti_group_a\<close>.
\<close>

definition anti_hit :: "GroupIdList \<Rightarrow> GroupIdList \<Rightarrow> bool" where
  "anti_hit groups_b anti_groups_a =
     list_ex (\<lambda>group_b. list_ex (\<lambda>anti_group_a. anti_group_a = group_b) anti_groups_a) groups_b"

text \<open>
  The loop over \<^verbatim>\<open>groups_a\<close>. The vector \<^verbatim>\<open>anti_groups_a\<close> is declared outside the
  loop, so it is carried from one iteration to the next.
\<close>

fun scan_groups :: "UnmergeTracker \<Rightarrow> GroupIdList \<Rightarrow> GroupIdList \<Rightarrow> GroupIdList \<Rightarrow> bool" where
  "scan_groups t [] groups_b anti_groups_a = True"
| "scan_groups t (group_a # rest) groups_b anti_groups_a =
     (let anti_groups_a' = getAntiGroupIDs t group_a anti_groups_a
      in if anti_hit groups_b anti_groups_a' then False
         else scan_groups t rest groups_b anti_groups_a')"

definition isValidMerge :: "UnmergeTracker \<Rightarrow> SegID \<Rightarrow> SegID \<Rightarrow> bool" where
  "isValidMerge t a b =
     (if is_empty t then True
      else scan_groups t (getGroupIDs t a []) (getGroupIDs t b []) [])"

text \<open>
  \<^verbatim>\<open>onMerge\<close>: the early return comes before the assertion
  \<^verbatim>\<open>assert(c == a || c == b)\<close>, whose failure aborts the program; the survivor's entry
  is written only when the concatenation is not empty.
\<close>

definition onMerge :: "UnmergeTracker \<Rightarrow> SegID \<Rightarrow> SegID \<Rightarrow> SegID \<Rightarrow> fault + UnmergeTracker" where
  "onMerge t a b c =
     (if is_empty t then Inr t
      else if \<not> (c = a \<or> c = b) then Inl AssertFailed
      else
        let groups_a = getGroupIDs t a [] @ getGroupIDs t b []
        in if length groups_a \<noteq> 0
           then Inr (t\<lparr>segid_to_groupid_list := (segid_to_groupid_list t)(c \<mapsto> groups_a)\<rparr>)
           else Inr t)"

text \<open>
  The tracker states a program can hold: one built by the constructor, then changed by
  \<^verbatim>\<open>onMerge\<close> only (the members are private).
\<close>

inductive tracker_reachable :: "UnmergeTracker \<Rightarrow> bool" where
  constructed: "new_UnmergeTracker input_list = Inr t \<Longrightarrow> tracker_reachable t"
| merged: "tracker_reachable t \<Longrightarrow> onMerge t a b c = Inr t' \<Longrightarrow> tracker_reachable t'"

section \<open>The visitors (frontend\_agglomerate.h)\<close>

text \<open>\<^verbatim>\<open>struct Merge { SegID a; SegID b; SegID c; ScoreValue score; };\<close> The score type
  (\<^verbatim>\<open>float\<close> in the source) is a parameter of the model: only its order is used.\<close>

type_synonym 'sc Merge = "SegID \<times> SegID \<times> SegID \<times> 'sc"

text \<open>
  \<^verbatim>\<open>MergeHistoryVisitor\<close> with the members of its base \<^verbatim>\<open>RegionMergingVisitor\<close>: the
  history vector it appends to and the tracker pointer, null until
  \<^verbatim>\<open>setUnmergeTracker\<close> is called.
\<close>

record 'sc MergeHistoryVisitor =
  history :: "'sc Merge list"
  unmergeTracker :: "UnmergeTracker option"

definition setUnmergeTracker :: "'sc MergeHistoryVisitor \<Rightarrow> UnmergeTracker \<Rightarrow> 'sc MergeHistoryVisitor" where
  "setUnmergeTracker vis tracker = vis\<lparr>unmergeTracker := Some tracker\<rparr>"

definition RegionMergingVisitor_onMerge ::
  "'sc MergeHistoryVisitor \<Rightarrow> SegID \<Rightarrow> SegID \<Rightarrow> SegID \<Rightarrow> 'sc \<Rightarrow> fault + 'sc MergeHistoryVisitor" where
  "RegionMergingVisitor_onMerge vis a b c score =
     (case unmergeTracker vis of
        None \<Rightarrow> Inr vis
      | Some t \<Rightarrow>
          (case onMerge t a b c of
             Inl e \<Rightarrow> Inl e
           | Inr t' \<Rightarrow> Inr (vis\<lparr>unmergeTracker := Some t'\<rparr>)))"

definition RegionMergingVisitor_isValidMerge :: "'sc MergeHistoryVisitor \<Rightarrow> SegID \<Rightarrow> SegID \<Rightarrow> bool" where
  "RegionMergingVisitor_isValidMerge vis a b =
     (case unmergeTracker vis of None \<Rightarrow> True | Some t \<Rightarrow> isValidMerge t a b)"

definition MergeHistoryVisitor_onMerge ::
  "'sc MergeHistoryVisitor \<Rightarrow> SegID \<Rightarrow> SegID \<Rightarrow> SegID \<Rightarrow> 'sc \<Rightarrow> fault + 'sc MergeHistoryVisitor" where
  "MergeHistoryVisitor_onMerge vis a b c score =
     RegionMergingVisitor_onMerge (vis\<lparr>history := history vis @ [(a, b, c, score)]\<rparr>) a b c score"

section \<open>The merge engine\<close>

text \<open>
  The backend headers (\<^verbatim>\<open>backend/IterativeRegionMerging.hpp\<close>, the region graph, the
  statistics providers, the queues) and the generated \<^verbatim>\<open>ScoringFunction.h\<close> and
  \<^verbatim>\<open>Queue.h\<close> are not among the sources. The engine below follows sections 3, 4.1, 4.4
  and 4.5 of the specification.
\<close>

text \<open>
  Modelled from the spec: an edge of the region graph (section 3). It joins two node ids
  and carries the statistic that the statistics provider keeps for it; a deleted edge
  stays in the store, marked. The edge id is the position in the store.
\<close>

record 'st Edge =
  edge_u :: SegID
  edge_v :: SegID
  statistic :: 'st
  deleted :: bool

text \<open>
  Modelled from the spec: the statistic family and the scoring function (sections 4.2 and
  4.3), which the build generates: how two statistics combine when parallel edges are
  merged, and the score of a statistic.
\<close>

record ('st, 'sc) Scoring =
  combine :: "'st \<Rightarrow> 'st \<Rightarrow> 'st"
  score_of :: "'st \<Rightarrow> 'sc"

text \<open>
  Modelled from the spec: the state of \<^verbatim>\<open>IterativeRegionMerging\<close>: the edge store of the
  region graph, the parent links (section 3: a live node is its own parent, a dead node
  points to the node that absorbed it) and the queue of entries
  \<open>(score_snapshot, edge_id)\<close>, best entry first (section 4.4, binary heap over
  \<open>(score, edge_id)\<close>). The parent links are kept compressed: when a node is absorbed,
  every node that resolved to it is pointed at the survivor, so \<open>resolve\<close> is one lookup.
\<close>

record ('st, 'sc) RegionMerging =
  edges :: "'st Edge list"
  parent :: "SegID \<Rightarrow> SegID"
  queue :: "('sc \<times> nat) list"

text \<open>Modelled from the spec: \<open>resolve(id) \<rightarrow> live_root\<close> (section 4.1).\<close>

definition resolve :: "(SegID \<Rightarrow> SegID) \<Rightarrow> SegID \<Rightarrow> SegID" where
  "resolve p n = p n"

text \<open>Modelled from the spec: the current score of an edge (section 4.5, step 4).\<close>

definition current_score :: "('st, 'sc) Scoring \<Rightarrow> 'st Edge \<Rightarrow> 'sc" where
  "current_score sf e = score_of sf (statistic e)"

text \<open>Modelled from the spec: an edge id that names an edge which is not deleted.\<close>

definition edge_live :: "'st Edge list \<Rightarrow> nat \<Rightarrow> bool" where
  "edge_live es e \<longleftrightarrow> e < length es \<and> \<not> deleted (es ! e)"

text \<open>
  Modelled from the spec: pushing a queue entry (section 4.4). Entries are ordered by
  ascending score, ties by edge id (section 5).
\<close>

fun push :: "('sc::linorder \<times> nat) \<Rightarrow> ('sc \<times> nat) list \<Rightarrow> ('sc \<times> nat) list" where
  "push x [] = [x]"
| "push x (y # ys) =
     (if fst x < fst y \<or> (fst x = fst y \<and> snd x \<le> snd y) then x # y # ys
      else y # push x ys)"

text \<open>Modelled from the spec: the edge joins the live roots \<open>x\<close> and \<open>y\<close>.\<close>

definition joins :: "(SegID \<Rightarrow> SegID) \<Rightarrow> 'st Edge \<Rightarrow> SegID \<Rightarrow> SegID \<Rightarrow> bool" where
  "joins p e x y \<longleftrightarrow>
     (resolve p (edge_u e) = x \<and> resolve p (edge_v e) = y) \<or>
     (resolve p (edge_u e) = y \<and> resolve p (edge_v e) = x)"

text \<open>Modelled from the spec: the edge has the live root \<open>n\<close> as an endpoint.\<close>

definition incident :: "(SegID \<Rightarrow> SegID) \<Rightarrow> 'st Edge \<Rightarrow> SegID \<Rightarrow> bool" where
  "incident p e n \<longleftrightarrow> resolve p (edge_u e) = n \<or> resolve p (edge_v e) = n"

text \<open>Modelled from the spec: marking an edge deleted (steps 6 and 7 of section 4.5).\<close>

definition delete_edge :: "nat \<Rightarrow> 'st Edge list \<Rightarrow> 'st Edge list" where
  "delete_edge e es = es[e := (es ! e)\<lparr>deleted := True\<rparr>]"

text \<open>
  Modelled from the spec: \<open>merge_nodes\<close> deletes any \<open>(survivor, loser)\<close> edge
  (section 4.1).
\<close>

definition delete_self_loops :: "(SegID \<Rightarrow> SegID) \<Rightarrow> SegID \<Rightarrow> SegID \<Rightarrow> 'st Edge list \<Rightarrow> 'st Edge list" where
  "delete_self_loops p survivor loser es =
     map (\<lambda>e. if \<not> deleted e \<and> joins p e survivor loser then e\<lparr>deleted := True\<rparr> else e) es"

text \<open>Modelled from the spec: the first live edge between two live roots, if any.\<close>

definition find_parallel :: "(SegID \<Rightarrow> SegID) \<Rightarrow> SegID \<Rightarrow> SegID \<Rightarrow> 'st Edge list \<Rightarrow> nat option" where
  "find_parallel p x y es =
     List.find (\<lambda>j. \<not> deleted (es ! j) \<and> joins p (es ! j) x y) [0..<length es]"

text \<open>Modelled from the spec: redirecting the loser's endpoint of an edge to the survivor.\<close>

definition redirect :: "(SegID \<Rightarrow> SegID) \<Rightarrow> SegID \<Rightarrow> SegID \<Rightarrow> 'st Edge \<Rightarrow> 'st Edge" where
  "redirect p loser survivor e =
     e\<lparr>edge_u := (if resolve p (edge_u e) = loser then survivor else edge_u e),
       edge_v := (if resolve p (edge_v e) = loser then survivor else edge_v e)\<rparr>"

text \<open>
  Modelled from the spec: reassigning one edge of the loser (section 4.1): for an edge
  \<open>(loser, w)\<close> with \<open>w \<noteq> survivor\<close>, if an edge \<open>(survivor, w)\<close> exists, the statistics are
  combined into it and the duplicate is marked deleted; otherwise the endpoint is
  redirected.
\<close>

definition reassign_edge ::
  "('st, 'sc) Scoring \<Rightarrow> (SegID \<Rightarrow> SegID) \<Rightarrow> SegID \<Rightarrow> SegID \<Rightarrow> nat \<Rightarrow> 'st Edge list \<Rightarrow> 'st Edge list" where
  "reassign_edge sf p loser survivor i es =
     (let e = es ! i in
      if deleted e \<or> \<not> incident p e loser then es
      else
        let w = (if resolve p (edge_u e) = loser then resolve p (edge_v e)
                 else resolve p (edge_u e))
        in if w = survivor \<or> w = loser then es[i := e\<lparr>deleted := True\<rparr>]
           else
             (case find_parallel p survivor w es of
                Some j \<Rightarrow>
                  (es[j := (es ! j)\<lparr>statistic := combine sf (statistic (es ! j)) (statistic e)\<rparr>])
                    [i := e\<lparr>deleted := True\<rparr>]
              | None \<Rightarrow> es[i := redirect p loser survivor e]))"

text \<open>
  Modelled from the spec: the loop of \<open>merge_nodes\<close> over the edge store, reassigning
  every edge of the loser in the order of the edge ids.
\<close>

fun reassign ::
  "('st, 'sc) Scoring \<Rightarrow> (SegID \<Rightarrow> SegID) \<Rightarrow> SegID \<Rightarrow> SegID \<Rightarrow> nat list \<Rightarrow> 'st Edge list \<Rightarrow> 'st Edge list" where
  "reassign sf p loser survivor [] es = es"
| "reassign sf p loser survivor (i # rest) es =
     reassign sf p loser survivor rest (reassign_edge sf p loser survivor i es)"

text \<open>
  Modelled from the spec: \<open>merge_nodes(u, v) \<rightarrow> survivor\<close> (section 4.1). The survivor is
  the smaller id. The \<open>(survivor, loser)\<close> edges are deleted, the loser's other edges are
  reassigned, and the parent link \<open>loser \<rightarrow> survivor\<close> is recorded.
\<close>

definition merge_nodes ::
  "('st, 'sc) Scoring \<Rightarrow> SegID \<Rightarrow> SegID \<Rightarrow> ('st, 'sc) RegionMerging
    \<Rightarrow> SegID \<times> ('st, 'sc) RegionMerging" where
  "merge_nodes sf u v rm =
     (let survivor = min u v;
          loser = (if survivor = u then v else u);
          p = parent rm;
          es = delete_self_loops p survivor loser (edges rm);
          es' = reassign sf p loser survivor [0..<length es] es
      in (survivor,
          rm\<lparr>edges := es', parent := (\<lambda>n. if p n = loser then survivor else p n)\<rparr>))"

text \<open>
  Modelled from the spec: step 8 of section 4.5, after the merge: for each surviving edge
  incident to the survivor the score is recomputed; if it is lower than before, a new
  queue entry is pushed; otherwise the old entry is left.
\<close>

fun rescore ::
  "('st, 'sc::linorder) Scoring \<Rightarrow> 'st Edge list \<Rightarrow> 'st Edge list \<Rightarrow> (SegID \<Rightarrow> SegID) \<Rightarrow> SegID \<Rightarrow>
    nat list \<Rightarrow> ('sc \<times> nat) list \<Rightarrow> ('sc \<times> nat) list" where
  "rescore sf old new p survivor [] q = q"
| "rescore sf old new p survivor (j # rest) q =
     rescore sf old new p survivor rest
       (if \<not> deleted (new ! j) \<and> incident p (new ! j) survivor \<and>
           current_score sf (new ! j) < current_score sf (old ! j)
        then push (current_score sf (new ! j), j) q else q)"

text \<open>
  Modelled from the spec: what one iteration of the loop of \<open>merge_until\<close> yields: the
  loop ends, it goes on, or a visitor callback failed. The state of the loop is the
  engine, the visitor and the count of merges.
\<close>

datatype 'a iteration = Stop 'a | Continue 'a | Failed fault

type_synonym ('st, 'sc) run_state = "('st, 'sc) RegionMerging \<times> 'sc MergeHistoryVisitor \<times> nat"

text \<open>
  Modelled from the spec: steps 6 to 9 of the loop of \<open>merge_until\<close> (section 4.5), for
  the popped entry of a live edge \<open>e\<close> whose current score is not above the threshold:
  the endpoints are resolved; an edge inside one region, or one the visitor rejects, is
  deleted; otherwise the regions are merged, the survivor's edges are rescored, the
  visitor is told and the merge is counted.
\<close>

definition perform_merge ::
  "('st, 'sc::linorder) Scoring \<Rightarrow> ('st, 'sc) RegionMerging \<Rightarrow> 'sc MergeHistoryVisitor \<Rightarrow> nat
    \<Rightarrow> nat \<Rightarrow> 'sc \<Rightarrow> ('st, 'sc) run_state iteration" where
  "perform_merge sf rm vis merged e current =
     (let u = resolve (parent rm) (edge_u (edges rm ! e));
          v = resolve (parent rm) (edge_v (edges rm ! e))
      in if u = v
         then Continue (rm\<lparr>edges := delete_edge e (edges rm)\<rparr>, vis, merged)
         else if \<not> RegionMergingVisitor_isValidMerge vis u v
         then Continue (rm\<lparr>edges := delete_edge e (edges rm)\<rparr>, vis, merged)
         else
           (case merge_nodes sf u v rm of
              (survivor, rm') \<Rightarrow>
                (case MergeHistoryVisitor_onMerge vis u v survivor current of
                   Inl f \<Rightarrow> Failed f
                 | Inr vis' \<Rightarrow>
                     Continue
                       (rm'\<lparr>queue := rescore sf (edges rm) (edges rm') (parent rm')
                               survivor [0..<length (edges rm')] (queue rm')\<rparr>,
                        vis', merged + 1))))"

text \<open>
  Modelled from the spec: one iteration of the loop of \<open>merge_until\<close> (section 4.5):
  steps 1 to 5, then \<open>perform_merge\<close>. The visitor is the frontend's
  \<^verbatim>\<open>MergeHistoryVisitor\<close>, whose \<^verbatim>\<open>onPop\<close>, \<^verbatim>\<open>onDeletedEdgeFound\<close> and
  \<^verbatim>\<open>onStaleEdgeFound\<close> do nothing. The third component of the state counts the merges.
\<close>

definition merge_step ::
  "('st, 'sc::linorder) Scoring \<Rightarrow> 'sc \<Rightarrow> ('st, 'sc) run_state \<Rightarrow> ('st, 'sc) run_state iteration" where
  "merge_step sf threshold s =
     (case s of (rm, vis, merged) \<Rightarrow>
      (case queue rm of
         [] \<Rightarrow> Stop (rm, vis, merged)
       | (snapshot, e) # rest \<Rightarrow>
           if \<not> edge_live (edges rm) e then Continue (rm\<lparr>queue := rest\<rparr>, vis, merged)
           else
             let current = current_score sf (edges rm ! e) in
             if current \<noteq> snapshot
             then Continue (rm\<lparr>queue := push (current, e) rest\<rparr>, vis, merged)
             else if threshold < current
             then Stop (rm\<lparr>queue := push (snapshot, e) rest\<rparr>, vis, merged)
             else perform_merge sf (rm\<lparr>queue := rest\<rparr>) vis merged e current))"

subsection \<open>The loop ends\<close>

text \<open>
  Every iteration that goes on deletes a live edge, or else replaces a stale queue entry
  by a current one, or else removes a queue entry: the number of live edges, then the
  number of stale entries, then the length of the queue decrease lexicographically.
\<close>

definition live_count :: "'st Edge list \<Rightarrow> nat" where
  "live_count es = card {k. edge_live es k}"

definition stale_count :: "('st, 'sc) Scoring \<Rightarrow> 'st Edge list \<Rightarrow> ('sc \<times> nat) list \<Rightarrow> nat" where
  "stale_count sf es q =
     length (filter (\<lambda>x. edge_live es (snd x) \<and> current_score sf (es ! snd x) \<noteq> fst x) q)"

definition shrinks :: "'st Edge list \<Rightarrow> 'st Edge list \<Rightarrow> bool" where
  "shrinks es es' \<longleftrightarrow> length es' = length es \<and> (\<forall>k < length es. deleted (es ! k) \<longrightarrow> deleted (es' ! k))"

lemma finite_live: "finite {k. edge_live es k}"
  by (rule finite_subset [of _ "{..<length es}"]) (auto simp: edge_live_def)

lemma shrinks_refl: "shrinks es es"
  by (simp add: shrinks_def)

lemma shrinks_trans: "shrinks a b \<Longrightarrow> shrinks b c \<Longrightarrow> shrinks a c"
  by (simp add: shrinks_def)

lemma shrinks_le: "shrinks es es' \<Longrightarrow> live_count es' \<le> live_count es"
  unfolding live_count_def
  by (rule card_mono [OF finite_live]) (auto simp: shrinks_def edge_live_def)

lemma shrinks_less:
  assumes "shrinks es es'" "edge_live es e" "\<not> edge_live es' e"
  shows "live_count es' < live_count es"
  unfolding live_count_def
proof (rule psubset_card_mono [OF finite_live])
  from assms show "{k. edge_live es' k} \<subset> {k. edge_live es k}"
    by (auto simp: shrinks_def edge_live_def)
qed

lemma shrinks_update:
  "(i < length es \<Longrightarrow> deleted (es ! i) \<Longrightarrow> deleted x) \<Longrightarrow> shrinks es (es[i := x])"
  by (cases "i < length es") (auto simp: shrinks_def nth_list_update)

lemma delete_edge_shrinks: "shrinks es (delete_edge e es)"
  unfolding delete_edge_def by (rule shrinks_update) simp

lemma delete_edge_less: "edge_live es e \<Longrightarrow> live_count (delete_edge e es) < live_count es"
  by (rule shrinks_less [OF delete_edge_shrinks, where e = e])
     (auto simp: edge_live_def delete_edge_def)

lemma delete_self_loops_shrinks: "shrinks es (delete_self_loops p s l es)"
  by (auto simp: shrinks_def delete_self_loops_def)

lemma reassign_edge_shrinks: "shrinks es (reassign_edge sf p l s i es)"
proof -
  have a: "shrinks es (es[i := (es ! i)\<lparr>deleted := True\<rparr>])"
    by (rule shrinks_update) simp
  have b: "shrinks es (es[i := redirect p l s (es ! i)])"
    by (rule shrinks_update) (simp add: redirect_def)
  have c: "shrinks es ((es[j := (es ! j)\<lparr>statistic := x\<rparr>])[i := (es ! i)\<lparr>deleted := True\<rparr>])" for j x
    by (rule shrinks_trans [of _ "es[j := (es ! j)\<lparr>statistic := x\<rparr>]"])
       (rule shrinks_update, simp)+
  from a b c shrinks_refl [of es] show ?thesis
    by (simp add: reassign_edge_def Let_def split: option.splits)
qed

lemma reassign_shrinks: "shrinks es (reassign sf p l s is es)"
proof (induction "is" arbitrary: es)
  case Nil
  show ?case by (simp add: shrinks_refl)
next
  case (Cons i rest)
  from shrinks_trans [OF reassign_edge_shrinks Cons.IH] show ?case by simp
qed

lemma merge_nodes_less:
  assumes "edge_live (edges rm) e"
    and "u = resolve (parent rm) (edge_u (edges rm ! e))"
    and "v = resolve (parent rm) (edge_v (edges rm ! e))"
  shows "live_count (edges (snd (merge_nodes sf u v rm))) < live_count (edges rm)"
proof -
  let ?s = "min u v"
  let ?l = "if ?s = u then v else u"
  let ?es1 = "delete_self_loops (parent rm) ?s ?l (edges rm)"
  let ?es2 = "reassign sf (parent rm) ?l ?s [0..<length ?es1] ?es1"
  have e2: "edges (snd (merge_nodes sf u v rm)) = ?es2"
    by (simp add: merge_nodes_def Let_def)
  from assms have "joins (parent rm) (edges rm ! e) ?s ?l"
    by (auto simp: joins_def min_def)
  with assms(1) have "\<not> edge_live ?es1 e"
    by (simp add: edge_live_def delete_self_loops_def)
  from shrinks_less [OF delete_self_loops_shrinks assms(1) this]
  have "live_count ?es1 < live_count (edges rm)" .
  with shrinks_le [OF reassign_shrinks, of sf "parent rm" ?l ?s "[0..<length ?es1]" ?es1]
  show ?thesis unfolding e2 by simp
qed

lemma stale_push:
  "stale_count sf es (push x q) =
     stale_count sf es q + (if edge_live es (snd x) \<and> current_score sf (es ! snd x) \<noteq> fst x then 1 else 0)"
  by (induction q) (auto simp: stale_count_def)

lemma length_push: "length (push x q) = Suc (length q)"
  by (induction q) auto

definition run_measure1 :: "('st, 'sc) Scoring \<times> 'sc \<times> ('st, 'sc) run_state \<Rightarrow> nat" where
  "run_measure1 x = (case x of (sf, t, rm, vis, n) \<Rightarrow> live_count (edges rm))"

definition run_measure2 :: "('st, 'sc) Scoring \<times> 'sc \<times> ('st, 'sc) run_state \<Rightarrow> nat" where
  "run_measure2 x = (case x of (sf, t, rm, vis, n) \<Rightarrow> stale_count sf (edges rm) (queue rm))"

definition run_measure3 :: "('st, 'sc) Scoring \<times> 'sc \<times> ('st, 'sc) run_state \<Rightarrow> nat" where
  "run_measure3 x = (case x of (sf, t, rm, vis, n) \<Rightarrow> length (queue rm))"

lemma perform_merge_decreases:
  assumes "perform_merge sf rm vis n e current = Continue (rm', vis', n')"
    and live: "edge_live (edges rm) e"
  shows "live_count (edges rm') < live_count (edges rm)"
proof -
  let ?u = "resolve (parent rm) (edge_u (edges rm ! e))"
  let ?v = "resolve (parent rm) (edge_v (edges rm ! e))"
  show ?thesis
  proof (cases "?u = ?v \<or> \<not> RegionMergingVisitor_isValidMerge vis ?u ?v")
    case True
    with assms(1) have "edges rm' = delete_edge e (edges rm)"
      by (auto simp: perform_merge_def Let_def split: if_splits)
    with delete_edge_less [OF live] show ?thesis by simp
  next
    case False
    obtain sv rm2 where m: "merge_nodes sf ?u ?v rm = (sv, rm2)"
      by (cases "merge_nodes sf ?u ?v rm") auto
    from merge_nodes_less [of rm e ?u ?v sf] live m
    have "live_count (edges rm2) < live_count (edges rm)" by simp
    moreover from assms(1) False m have "edges rm' = edges rm2"
      by (auto simp: perform_merge_def Let_def split: sum.splits)
    ultimately show ?thesis by simp
  qed
qed

lemma merge_step_decreases:
  assumes "merge_step sf threshold s = Continue s'"
  shows "((sf, threshold, s'), (sf, threshold, s)) \<in> measures [run_measure1, run_measure2, run_measure3]"
proof -
  obtain rm vis n where s: "s = (rm, vis, n)" by (cases s) auto
  obtain rm' vis' n' where s': "s' = (rm', vis', n')" by (cases s') auto
  show ?thesis
  proof (cases "queue rm")
    case Nil
    with assms s show ?thesis by (simp add: merge_step_def)
  next
    case (Cons x rest)
    obtain snapshot e where x: "x = (snapshot, e)" by (cases x) auto
    note q = Cons [unfolded x]
    show ?thesis
    proof (cases "edge_live (edges rm) e")
      case False
      with assms s q have "s' = (rm\<lparr>queue := rest\<rparr>, vis, n)"
        by (simp add: merge_step_def)
      with s q False show ?thesis
        by (simp add: run_measure1_def run_measure2_def run_measure3_def stale_count_def)
    next
      case live: True
      let ?cur = "current_score sf (edges rm ! e)"
      show ?thesis
      proof (cases "?cur = snapshot")
        case False
        with assms s q live have "s' = (rm\<lparr>queue := push (?cur, e) rest\<rparr>, vis, n)"
          by (simp add: merge_step_def Let_def)
        with s q live False show ?thesis
          by (simp add: run_measure1_def run_measure2_def run_measure3_def stale_push)
             (simp add: stale_count_def)
      next
        case True
        with assms s s' q live
        have "perform_merge sf (rm\<lparr>queue := rest\<rparr>) vis n e ?cur = Continue (rm', vis', n')"
          by (auto simp: merge_step_def Let_def split: if_splits)
        from perform_merge_decreases [OF this] live s s' show ?thesis
          by (simp add: run_measure1_def)
      qed
    qed
  qed
qed

text \<open>
  Modelled from the spec: the loop of \<open>merge_until(threshold, visitor)\<close> (section 4.5),
  run from a state until it stops by itself: the queue is empty, or the best current edge
  scores above the threshold.
\<close>

function run ::
  "('st, 'sc::linorder) Scoring \<Rightarrow> 'sc \<Rightarrow> ('st, 'sc) run_state \<Rightarrow> fault + ('st, 'sc) run_state" where
  "run sf threshold s =
     (case merge_step sf threshold s of
        Stop s' \<Rightarrow> Inr s'
      | Failed f \<Rightarrow> Inl f
      | Continue s' \<Rightarrow> run sf threshold s')"
  by pat_completeness auto
termination
proof (relation "measures [run_measure1, run_measure2, run_measure3]")
  show "wf (measures [run_measure1 :: ('a, 'b) Scoring \<times> 'b \<times> ('a, 'b) run_state \<Rightarrow> nat,
      run_measure2, run_measure3])"
    by simp
next
  fix sf :: "('a, 'b) Scoring" and threshold s s'
  assume "merge_step sf threshold s = Continue s'"
  then show "((sf, threshold, s'), (sf, threshold, s))
      \<in> measures [run_measure1, run_measure2, run_measure3]"
    by (rule merge_step_decreases)
qed

text \<open>
  Modelled from the spec: \<open>merge_until(threshold, visitor) \<rightarrow> n_merges_performed\<close>. The
  counter starts at zero in every call.
\<close>

definition RegionMerging_mergeUntil ::
  "('st, 'sc::linorder) Scoring \<Rightarrow> 'sc \<Rightarrow> ('st, 'sc) RegionMerging \<Rightarrow> 'sc MergeHistoryVisitor
    \<Rightarrow> fault + ('st, 'sc) run_state" where
  "RegionMerging_mergeUntil sf threshold rm vis = run sf threshold (rm, vis, 0)"

text \<open>
  Modelled from the spec: segmentation extraction (section 4.5): every voxel's id is
  remapped through \<open>resolve\<close>.
\<close>

definition extractSegmentation :: "('st, 'sc) RegionMerging \<Rightarrow> SegID list \<Rightarrow> SegID list" where
  "extractSegmentation rm seg = map (resolve (parent rm)) seg"

text \<open>
  Modelled from the spec: seeding the queue (section 2, data flow): one entry per edge,
  at its initial score.
\<close>

fun seed_queue :: "('st, 'sc::linorder) Scoring \<Rightarrow> 'st Edge list \<Rightarrow> nat list \<Rightarrow> ('sc \<times> nat) list \<Rightarrow> ('sc \<times> nat) list" where
  "seed_queue sf es [] q = q"
| "seed_queue sf es (e # rest) q =
     seed_queue sf es rest (if deleted (es ! e) then q else push (current_score sf (es ! e), e) q)"

text \<open>
  Modelled from the spec: the engine as \<^verbatim>\<open>initialize\<close> constructs it from the region
  graph: no node merged yet, the queue seeded.
\<close>

definition new_RegionMerging :: "('st, 'sc::linorder) Scoring \<Rightarrow> 'st Edge list \<Rightarrow> ('st, 'sc) RegionMerging" where
  "new_RegionMerging sf es =
     \<lparr>edges = es, parent = (\<lambda>n. n), queue = seed_queue sf es [0..<length es] []\<rparr>"

section \<open>The context registry (frontend\_agglomerate.h)\<close>

text \<open>
  \<^verbatim>\<open>WaterzContext\<close>. The shared pointers \<^verbatim>\<open>regionGraph\<close>, \<^verbatim>\<open>statisticsProvider\<close>,
  \<^verbatim>\<open>scoringFunction\<close> and \<^verbatim>\<open>regionMerging\<close> are set together by \<^verbatim>\<open>initialize\<close> and
  share one state, the field \<open>regionMerging\<close> here; \<open>None\<close> is the null pointer a new
  context starts with. \<open>segmentation\<close> is a reference to the caller's array, modelled by
  the array's contents; \<open>groundtruth\<close> likewise.
\<close>

record ('st, 'sc) WaterzContext =
  context_id :: int
  regionMerging :: "('st, 'sc) RegionMerging option"
  segmentation :: "SegID list option"
  groundtruth :: "GtID list option"
  unmergeList :: UnmergeGroupListTupleList

text \<open>
  The static members \<^verbatim>\<open>_contexts\<close> (ids to context pointers) and \<^verbatim>\<open>_nextId\<close>, together
  with the objects that \<^verbatim>\<open>new\<close> allocated: \<open>heap\<close> maps an address to the object stored
  there, \<open>brk\<close> is the next address \<^verbatim>\<open>new\<close> hands out.
\<close>

type_synonym addr = nat

record ('st, 'sc) Registry =
  contexts :: "int \<rightharpoonup> addr"
  nextId :: int
  heap :: "addr \<rightharpoonup> ('st, 'sc) WaterzContext"
  brk :: addr

text \<open>The state at program start: \<^verbatim>\<open>_contexts\<close> empty, \<^verbatim>\<open>_nextId = 0\<close>.\<close>

definition initial_registry :: "('st, 'sc) Registry" where
  "initial_registry = \<lparr>contexts = Map.empty, nextId = 0, heap = Map.empty, brk = 0\<rparr>"

text \<open>
  \<^verbatim>\<open>createNew\<close>. \<^verbatim>\<open>_nextId++\<close> on an \<^verbatim>\<open>int\<close> that holds \<^verbatim>\<open>INT_MAX\<close> overflows;
  \<^verbatim>\<open>std::map::insert\<close> leaves an existing entry as it is.
\<close>

definition WaterzContext_createNew :: "('st, 'sc) Registry \<Rightarrow> fault + (addr \<times> ('st, 'sc) Registry)" where
  "WaterzContext_createNew reg =
     (let a = brk reg;
          i = nextId reg;
          context = \<lparr>context_id = i, regionMerging = None, segmentation = None,
                     groundtruth = None, unmergeList = []\<rparr>
      in if i = 2147483647 then Inl SignedOverflow
         else Inr (a, reg\<lparr>heap := (heap reg)(a \<mapsto> context), brk := a + 1, nextId := i + 1,
                          contexts := (if i \<in> dom (contexts reg) then contexts reg
                                       else (contexts reg)(i \<mapsto> a))\<rparr>))"

definition WaterzContext_get :: "('st, 'sc) Registry \<Rightarrow> int \<Rightarrow> addr option" where
  "WaterzContext_get reg i = (if i \<notin> dom (contexts reg) then None else contexts reg i)"

definition WaterzContext_free :: "('st, 'sc) Registry \<Rightarrow> int \<Rightarrow> ('st, 'sc) Registry" where
  "WaterzContext_free reg i =
     (case WaterzContext_get reg i of
        None \<Rightarrow> reg
      | Some context \<Rightarrow>
          reg\<lparr>contexts := (contexts reg)(i := None), heap := (heap reg)(context := None)\<rparr>)"

text \<open>
  The registry states a program can reach, with the set of ids that \<^verbatim>\<open>createNew\<close> has
  issued so far. Besides \<^verbatim>\<open>createNew\<close> and \<^verbatim>\<open>free\<close>, the frontend only writes to the
  context objects.
\<close>

inductive registry_issued :: "('st, 'sc) Registry \<Rightarrow> int set \<Rightarrow> bool" where
  start: "registry_issued initial_registry {}"
| created: "registry_issued reg ids \<Longrightarrow> WaterzContext_createNew reg = Inr (a, reg') \<Longrightarrow>
     registry_issued reg' (insert (nextId reg) ids)"
| freed: "registry_issued reg ids \<Longrightarrow> registry_issued (WaterzContext_free reg i) ids"
| written: "registry_issued reg ids \<Longrightarrow> registry_issued (reg\<lparr>heap := h\<rparr>) ids"

section \<open>The frontend (frontend\_agglomerate.cpp)\<close>

text \<open>\<^verbatim>\<open>struct WaterzState { int context; Metrics metrics; };\<close> The metrics are \<open>None\<close>
  until \<^verbatim>\<open>mergeUntil\<close> writes them (\<^verbatim>\<open>initialize\<close> leaves them uninitialised).\<close>

record 'm WaterzState =
  state_context :: int
  state_metrics :: "'m option"

text \<open>
  What the frontend calls and the sources do not hold, as parameters: \<^verbatim>\<open>watershed\<close>
  (it returns the fragments it wrote to the segmentation array, and the sizes),
  \<^verbatim>\<open>get_region_graph\<close> (it returns the edges with their initial statistics),
  \<^verbatim>\<open>compare_volumes\<close>, and the generated scoring function. With them comes the limit
  of the standard library and the machine that the frontend meets: \<open>sizes_capacity\<close> is
  the largest length to which \<^verbatim>\<open>sizes.resize\<close> can bring the sizes vector in this run,
  at most \<^verbatim>\<open>max_size()\<close> of the vector and less when memory is short.
\<close>

record ('aff, 'st, 'sc, 'm) Backend =
  watershed :: "'aff list \<Rightarrow> 64 word \<times> 64 word \<times> 64 word \<Rightarrow> 'aff \<Rightarrow> 'aff \<Rightarrow> SegID list
                 \<Rightarrow> SegID list \<times> 64 word list"
  get_region_graph :: "'aff list \<Rightarrow> 64 word \<times> 64 word \<times> 64 word \<Rightarrow> SegID list \<Rightarrow> 64 word
                 \<Rightarrow> 'st Edge list"
  compare_volumes :: "GtID list \<Rightarrow> SegID list \<Rightarrow> 'm"
  scoring :: "('st, 'sc) Scoring"
  sizes_capacity :: "64 word"

text \<open>
  \<^verbatim>\<open>*std::max_element(segmentation_data, segmentation_data + num_voxels)\<close>: the largest
  of the first \<open>num_voxels\<close> elements; on an empty range the end pointer itself is read.
\<close>

definition max_element :: "SegID list \<Rightarrow> nat \<Rightarrow> fault + SegID" where
  "max_element segmentation_data num_voxels =
     (if length segmentation_data < num_voxels then Inl OutOfBounds
      else (case segmentation_data of
              [] \<Rightarrow> Inl OutOfBounds
            | x # xs \<Rightarrow> Inr (fold max (take (num_voxels - 1) xs) x)))"

text \<open>
  \<^verbatim>\<open>for (i = 0; i < num_voxels; i++) sizes[segmentation_data[i]]++;\<close> The counters are
  \<^verbatim>\<open>std::size_t\<close>; an index outside the vector is an access out of bounds.
\<close>

fun count_voxels :: "SegID list \<Rightarrow> 64 word list \<Rightarrow> fault + 64 word list" where
  "count_voxels [] sizes = Inr sizes"
| "count_voxels (s # rest) sizes =
     (if unat s < length sizes
      then count_voxels rest (sizes[unat s := sizes ! unat s + 1])
      else Inl OutOfBounds)"

text \<open>
  \<^verbatim>\<open>sizes.resize(n)\<close> on the empty sizes vector: \<open>n\<close> zeros, or the exception when
  \<open>n\<close> is above what the vector can be brought to.
\<close>

definition resize_sizes :: "64 word \<Rightarrow> 64 word \<Rightarrow> fault + 64 word list" where
  "resize_sizes capacity n =
     (if unat capacity < unat n then Inl AllocationFailed else Inr (replicate (unat n) 0))"

text \<open>
  The branch of \<^verbatim>\<open>initialize\<close> for \<^verbatim>\<open>findFragments == false\<close>:
  \<^verbatim>\<open>sizes.resize(maxId + 1)\<close>, where \<^verbatim>\<open>maxId + 1\<close> is computed in \<^verbatim>\<open>std::size_t\<close>,
  then the counting loop.
\<close>

definition count_sizes :: "64 word \<Rightarrow> SegID list \<Rightarrow> 64 word \<Rightarrow> fault + 64 word list" where
  "count_sizes capacity segmentation_data num_voxels =
     (case max_element segmentation_data (unat num_voxels) of
        Inl f \<Rightarrow> Inl f
      | Inr maxId \<Rightarrow>
          (case resize_sizes capacity (maxId + 1) of
             Inl f \<Rightarrow> Inl f
           | Inr sizes \<Rightarrow> count_voxels (take (unat num_voxels) segmentation_data) sizes))"

text \<open>
  The first part of \<^verbatim>\<open>initialize\<close>: the fragments in the segmentation array and the
  sizes, from \<^verbatim>\<open>watershed\<close> or from the supplied segmentation.
\<close>

definition fragments_and_sizes ::
  "('aff, 'st, 'sc, 'm) Backend \<Rightarrow> 64 word \<Rightarrow> 64 word \<Rightarrow> 64 word \<Rightarrow> 'aff list \<Rightarrow> SegID list
    \<Rightarrow> 'aff \<Rightarrow> 'aff \<Rightarrow> bool \<Rightarrow> fault + (SegID list \<times> 64 word list)" where
  "fragments_and_sizes be width height depth affinity_data segmentation_data
       affThresholdLow affThresholdHigh findFragments =
     (let num_voxels = width * height * depth in
      if findFragments
      then Inr (watershed be affinity_data (width, height, depth) affThresholdLow
                  affThresholdHigh segmentation_data)
      else (case count_sizes (sizes_capacity be) segmentation_data num_voxels of
              Inl f \<Rightarrow> Inl f
            | Inr sizes \<Rightarrow> Inr (segmentation_data, sizes)))"

text \<open>
  \<^verbatim>\<open>initialize\<close>. The pointer arguments \<^verbatim>\<open>ground_truth_data\<close> and \<^verbatim>\<open>unmergeList\<close> may be
  null (\<open>None\<close>); \<^verbatim>\<open>context->unmergeList = *unmergeList\<close> reads through the latter
  (\<open>unmergeListPtr\<close> here) without a test. The writes through \<^verbatim>\<open>context\<close> go to the new object.
\<close>

definition initialize ::
  "('aff, 'st, 'sc::linorder, 'm) Backend \<Rightarrow> ('st, 'sc) Registry \<Rightarrow> 64 word \<Rightarrow> 64 word \<Rightarrow> 64 word
    \<Rightarrow> 'aff list \<Rightarrow> SegID list \<Rightarrow> GtID list option \<Rightarrow> 'aff \<Rightarrow> 'aff \<Rightarrow> bool
    \<Rightarrow> UnmergeGroupListTupleList option \<Rightarrow> fault + ('m WaterzState \<times> ('st, 'sc) Registry)" where
  "initialize be reg width height depth affinity_data segmentation_data ground_truth_data
       affThresholdLow affThresholdHigh findFragments unmergeListPtr =
     (case fragments_and_sizes be width height depth affinity_data segmentation_data
             affThresholdLow affThresholdHigh findFragments of
        Inl f \<Rightarrow> Inl f
      | Inr (seg, sizes) \<Rightarrow>
          let numNodes = (of_nat (length sizes) :: 64 word);
              regionGraph = get_region_graph be affinity_data (width, height, depth) seg
                              (numNodes - 1);
              merging = new_RegionMerging (scoring be) regionGraph
          in (case WaterzContext_createNew reg of
                Inl f \<Rightarrow> Inl f
              | Inr (a, reg') \<Rightarrow>
                  let context = \<lparr>context_id = nextId reg, regionMerging = Some merging,
                                 segmentation = Some seg, groundtruth = None, unmergeList = []\<rparr>;
                      initial_state = \<lparr>state_context = context_id context, state_metrics = None\<rparr>;
                      context' = (case ground_truth_data of
                                    None \<Rightarrow> context
                                  | Some gt \<Rightarrow> context\<lparr>groundtruth := Some gt\<rparr>)
                  in (case unmergeListPtr of
                        None \<Rightarrow> Inl NullPointer
                      | Some l \<Rightarrow>
                          Inr (initial_state,
                               reg'\<lparr>heap := (heap reg')(a \<mapsto> context'\<lparr>unmergeList := l\<rparr>)\<rparr>))))"

text \<open>
  \<^verbatim>\<open>mergeUntil\<close>, in three parts. First the visitor that every call builds: an empty
  history and, when the context has a non-empty unmerge list, a new tracker made from
  that list.
\<close>

definition new_mergeHistoryVisitor :: "UnmergeGroupListTupleList \<Rightarrow> fault + 'sc MergeHistoryVisitor" where
  "new_mergeHistoryVisitor l =
     (if length l \<noteq> 0
      then (case new_UnmergeTracker l of
              Inl f \<Rightarrow> Inl f
            | Inr tracker \<Rightarrow>
                Inr (setUnmergeTracker \<lparr>history = [], unmergeTracker = None\<rparr> tracker))
      else Inr \<lparr>history = [], unmergeTracker = None\<rparr>)"

text \<open>
  Then the body, on the context object: the engine runs; the segmentation is extracted
  if at least one merge happened; the metrics are written if there is a ground truth.
\<close>

definition mergeUntil_body ::
  "('aff, 'st, 'sc::linorder, 'm) Backend \<Rightarrow> ('st, 'sc) WaterzContext \<Rightarrow> 'm WaterzState \<Rightarrow> 'sc
    \<Rightarrow> fault + ('sc Merge list \<times> 'm WaterzState \<times> ('st, 'sc) WaterzContext)" where
  "mergeUntil_body be ctx state threshold =
     (case new_mergeHistoryVisitor (unmergeList ctx) of
        Inl f \<Rightarrow> Inl f
      | Inr mergeHistoryVisitor \<Rightarrow>
     (case regionMerging ctx of
        None \<Rightarrow> Inl NullPointer
      | Some rm \<Rightarrow>
     (case RegionMerging_mergeUntil (scoring be) threshold rm mergeHistoryVisitor of
        Inl f \<Rightarrow> Inl f
      | Inr (rm', visitor', merged) \<Rightarrow>
     (case (if merged \<noteq> 0
            then (case segmentation ctx of
                    None \<Rightarrow> Inl NullPointer
                  | Some seg \<Rightarrow> Inr (Some (extractSegmentation rm' seg)))
            else Inr (segmentation ctx)) of
        Inl f \<Rightarrow> Inl f
      | Inr seg' \<Rightarrow>
     (case (case groundtruth ctx of
              None \<Rightarrow> Inr state
            | Some gt \<Rightarrow>
                (case seg' of
                   None \<Rightarrow> Inl NullPointer
                 | Some seg \<Rightarrow> Inr (state\<lparr>state_metrics := Some (compare_volumes be gt seg)\<rparr>))) of
        Inl f \<Rightarrow> Inl f
      | Inr state' \<Rightarrow>
          Inr (history visitor', state',
               ctx\<lparr>regionMerging := Some rm', segmentation := seg'\<rparr>))))))"

text \<open>
  The whole function: \<^verbatim>\<open>WaterzContext::get(state.context)\<close> gives the context pointer;
  an id that is not registered gives a null pointer, which is read at once.
\<close>

definition mergeUntil ::
  "('aff, 'st, 'sc::linorder, 'm) Backend \<Rightarrow> ('st, 'sc) Registry \<Rightarrow> 'm WaterzState \<Rightarrow> 'sc
    \<Rightarrow> fault + ('sc Merge list \<times> 'm WaterzState \<times> ('st, 'sc) Registry)" where
  "mergeUntil be reg state threshold =
     (case WaterzContext_get reg (state_context state) of
        None \<Rightarrow> Inl NullPointer
      | Some a \<Rightarrow>
          (case heap reg a of
             None \<Rightarrow> Inl NullPointer
           | Some ctx \<Rightarrow>
               (case mergeUntil_body be ctx state threshold of
                  Inl f \<Rightarrow> Inl f
                | Inr (h, state', ctx') \<Rightarrow>
                    Inr (h, state', reg\<lparr>heap := (heap reg)(a \<mapsto> ctx')\<rparr>))))"

text \<open>\<^verbatim>\<open>getRegionGraph\<close> is not modelled (no claim is about it). \<^verbatim>\<open>free\<close>:\<close>

definition free :: "('st, 'sc) Registry \<Rightarrow> 'm WaterzState \<Rightarrow> ('st, 'sc) Registry" where
  "free reg state = WaterzContext_free reg (state_context state)"

section \<open>Runs of the frontend\<close>

text \<open>The segmentation volume that the context of a state refers to.\<close>

definition segmentation_of :: "('st, 'sc) Registry \<Rightarrow> 'm WaterzState \<Rightarrow> SegID list option" where
  "segmentation_of reg state =
     (case WaterzContext_get reg (state_context state) of
        None \<Rightarrow> None
      | Some a \<Rightarrow> (case heap reg a of None \<Rightarrow> None | Some ctx \<Rightarrow> segmentation ctx))"

text \<open>
  Successive calls of \<^verbatim>\<open>mergeUntil\<close> on one state, one per threshold of the list; the
  histories they return are concatenated.
\<close>

fun mergeUntil_each ::
  "('aff, 'st, 'sc::linorder, 'm) Backend \<Rightarrow> ('st, 'sc) Registry \<Rightarrow> 'm WaterzState \<Rightarrow> 'sc list
    \<Rightarrow> fault + ('sc Merge list \<times> 'm WaterzState \<times> ('st, 'sc) Registry)" where
  "mergeUntil_each be reg state [] = Inr ([], state, reg)"
| "mergeUntil_each be reg state (threshold # rest) =
     (case mergeUntil be reg state threshold of
        Inl f \<Rightarrow> Inl f
      | Inr (h, state', reg') \<Rightarrow>
          (case mergeUntil_each be reg' state' rest of
             Inl f \<Rightarrow> Inl f
           | Inr (h', state'', reg'') \<Rightarrow> Inr (h @ h', state'', reg'')))"

text \<open>
  A complete run: \<^verbatim>\<open>initialize\<close>, then \<^verbatim>\<open>mergeUntil\<close> at each threshold. What the
  caller sees of it: the merge history and the final segmentation.
\<close>

definition complete_run ::
  "('aff, 'st, 'sc::linorder, 'm) Backend \<Rightarrow> ('st, 'sc) Registry \<Rightarrow> 64 word \<Rightarrow> 64 word \<Rightarrow> 64 word
    \<Rightarrow> 'aff list \<Rightarrow> SegID list \<Rightarrow> GtID list option \<Rightarrow> 'aff \<Rightarrow> 'aff \<Rightarrow> bool
    \<Rightarrow> UnmergeGroupListTupleList option \<Rightarrow> 'sc list
    \<Rightarrow> fault + ('sc Merge list \<times> SegID list option)" where
  "complete_run be reg width height depth affinity_data segmentation_data ground_truth_data
       affThresholdLow affThresholdHigh findFragments unmergeListPtr thresholds =
     (case initialize be reg width height depth affinity_data segmentation_data
             ground_truth_data affThresholdLow affThresholdHigh findFragments unmergeListPtr of
        Inl f \<Rightarrow> Inl f
      | Inr (state, reg') \<Rightarrow>
          (case mergeUntil_each be reg' state thresholds of
             Inl f \<Rightarrow> Inl f
           | Inr (h, state', reg'') \<Rightarrow> Inr (h, segmentation_of reg'' state')))"

text \<open>
  A small instance for concrete runs: statistics and scores are natural numbers, the
  statistic of merged edges is the maximum, and the score is the statistic. The region
  graph has the nodes 1, 2 and 3 and the edges \<open>1\<midarrow>2\<close> (score 2) and \<open>1\<midarrow>3\<close> (score 6),
  as for the volume \<open>[2, 1, 3]\<close>. The sizes vector can grow to \<open>2\<^sup>6\<^sup>0 - 1\<close> elements, the
  \<^verbatim>\<open>max_size()\<close> of a vector of 8-byte elements on a 64-bit machine.
\<close>

definition example_backend :: "(unit, nat, nat, unit) Backend" where
  "example_backend =
     \<lparr>watershed = (\<lambda>aff dims lo hi seg. (seg, [])),
      get_region_graph = (\<lambda>aff dims seg n.
         [\<lparr>edge_u = 1, edge_v = 2, statistic = 2, deleted = False\<rparr>,
          \<lparr>edge_u = 1, edge_v = 3, statistic = 6, deleted = False\<rparr>]),
      compare_volumes = (\<lambda>gt seg. ()),
      scoring = \<lparr>combine = max, score_of = (\<lambda>x. x)\<rparr>,
      sizes_capacity = 1152921504606846975\<rparr>"

section \<open>Properties of the unmerge tracker\<close>

definition tracker_inv :: "UnmergeTracker \<Rightarrow> bool" where
  "tracker_inv t \<longleftrightarrow>
     (is_empty t \<longrightarrow> (\<forall>s. getGroupIDs t s [] = [])) \<and>
     (\<forall>s. \<forall>g \<in> set (getGroupIDs t s []). g \<in> dom (groupid_to_anti_list t)) \<and>
     (\<forall>g h. h \<in> set (getAntiGroupIDs t g []) \<longrightarrow> g \<in> set (getAntiGroupIDs t h []))"

lemma add_segids_set:
  "set (at_or_empty (add_segids g ss m) s) \<subseteq> set (at_or_empty m s) \<union> {g}"
proof (induction ss arbitrary: m)
  case Nil
  show ?case by auto
next
  case (Cons x xs)
  have "set (at_or_empty (m(x \<mapsto> at_or_empty m x @ [g])) s) \<subseteq> set (at_or_empty m s) \<union> {g}"
    by (auto simp: at_or_empty_def)
  with Cons.IH [of "m(x \<mapsto> at_or_empty m x @ [g])"] show ?case
    by (simp only: add_segids.simps) blast
qed

lemma add_groups_result:
  "add_groups tup m mx = Inr (m', mx') \<Longrightarrow>
     mx' = mx @ map hd tup \<and> [] \<notin> set tup \<and>
     (\<forall>s. set (at_or_empty m' s) \<subseteq> set (at_or_empty m s) \<union> set (map hd tup))"
proof (induction tup arbitrary: m mx)
  case Nil
  then show ?case by simp
next
  case (Cons G rest)
  then obtain g segs where G: "G = g # segs"
    by (cases G) auto
  from Cons.prems G have run: "add_groups rest (add_segids g G m) (mx @ [g]) = Inr (m', mx')"
    by simp
  note ih = Cons.IH [OF run]
  have "set (at_or_empty m' s) \<subseteq> set (at_or_empty m s) \<union> set (map hd (G # rest))" for s
    using ih add_segids_set [of g G m s] G by auto
  with ih G show ?case by auto
qed

lemma add_antis_dom: "dom (add_antis gs mx anti) = dom anti \<union> set gs"
  by (induction gs arbitrary: anti) auto

lemma add_antis_set:
  "set (at_or_empty (add_antis gs mx anti) g) =
     set (at_or_empty anti g) \<union> (if g \<in> set gs then set mx - {g} else {})"
proof (induction gs arbitrary: anti)
  case Nil
  show ?case by simp
next
  case (Cons x xs)
  have "set (at_or_empty (anti(x \<mapsto> at_or_empty anti x @ others_of x mx)) g) =
          set (at_or_empty anti g) \<union> (if g = x then set mx - {g} else {})"
    by (auto simp: at_or_empty_def others_of_def)
  with Cons.IH [of "anti(x \<mapsto> at_or_empty anti x @ others_of x mx)"] show ?case
    by (simp only: add_antis.simps) auto
qed

lemma getGroupIDs_at: "getGroupIDs t s [] = at_or_empty (segid_to_groupid_list t) s"
  by (simp add: getGroupIDs_def at_or_empty_def)

lemma getAntiGroupIDs_at: "getAntiGroupIDs t g [] = at_or_empty (groupid_to_anti_list t) g"
  by (simp add: getAntiGroupIDs_def at_or_empty_def)

text \<open>What one tuple does to a tracker.\<close>

definition tuple_step :: "AntiGroupListTuple \<Rightarrow> UnmergeTracker \<Rightarrow> UnmergeTracker \<Rightarrow> bool" where
  "tuple_step tup t t' \<longleftrightarrow>
     [] \<notin> set tup \<and> is_empty t' = is_empty t \<and>
     (\<forall>s. set (getGroupIDs t' s []) \<subseteq> set (getGroupIDs t s []) \<union> set (map hd tup)) \<and>
     dom (groupid_to_anti_list t') = dom (groupid_to_anti_list t) \<union> set (map hd tup) \<and>
     (\<forall>g. set (getAntiGroupIDs t' g []) =
        set (getAntiGroupIDs t g []) \<union> (if g \<in> set (map hd tup) then set (map hd tup) - {g} else {}))"

lemma tuple_step_inv:
  assumes st: "tuple_step tup t t'" and inv: "tracker_inv t" and ne: "\<not> is_empty t"
  shows "tracker_inv t' \<and> \<not> is_empty t'"
proof -
  let ?H = "set (map hd tup)"
  from st have e: "is_empty t' = is_empty t"
    and grp: "\<And>s. set (getGroupIDs t' s []) \<subseteq> set (getGroupIDs t s []) \<union> ?H"
    and dm: "dom (groupid_to_anti_list t') = dom (groupid_to_anti_list t) \<union> ?H"
    and anti: "\<And>g. set (getAntiGroupIDs t' g []) =
        set (getAntiGroupIDs t g []) \<union> (if g \<in> ?H then ?H - {g} else {})"
    unfolding tuple_step_def by blast+
  from inv have cl: "\<And>s g. g \<in> set (getGroupIDs t s []) \<Longrightarrow> g \<in> dom (groupid_to_anti_list t)"
    and sym: "\<And>g h. h \<in> set (getAntiGroupIDs t g []) \<Longrightarrow> g \<in> set (getAntiGroupIDs t h [])"
    unfolding tracker_inv_def by blast+
  have a: "g \<in> dom (groupid_to_anti_list t')" if "g \<in> set (getGroupIDs t' s [])" for s g
    using that grp [of s] cl [of g s] dm by blast
  have b: "g \<in> set (getAntiGroupIDs t' h [])" if h: "h \<in> set (getAntiGroupIDs t' g [])" for g h
  proof (cases "h \<in> set (getAntiGroupIDs t g [])")
    case True
    then have "g \<in> set (getAntiGroupIDs t h [])" by (rule sym)
    then show ?thesis using anti [of h] by blast
  next
    case False
    with h anti [of g] have "g \<in> ?H" "h \<in> ?H" "h \<noteq> g"
      by (auto split: if_splits)
    then show ?thesis using anti [of h] by auto
  qed
  from a b e ne show ?thesis unfolding tracker_inv_def by blast
qed

lemma add_tuples_step:
  "add_groups tup (segid_to_groupid_list t) [] = Inr (m, mx) \<Longrightarrow>
   tuple_step tup t
     (t\<lparr>segid_to_groupid_list := m,
        groupid_to_anti_list := add_antis mx mx (groupid_to_anti_list t)\<rparr>)"
  using add_groups_result [of tup "segid_to_groupid_list t" "[]" m mx]
  unfolding tuple_step_def
  by (simp add: getGroupIDs_at getAntiGroupIDs_at add_antis_dom add_antis_set)

lemma add_tuples_inv:
  "add_tuples L t = Inr t' \<Longrightarrow> tracker_inv t \<Longrightarrow> \<not> is_empty t \<Longrightarrow> tracker_inv t'"
proof (induction L arbitrary: t)
  case Nil
  then show ?case by simp
next
  case (Cons tup rest)
  from Cons.prems(1) obtain m mx where
    g: "add_groups tup (segid_to_groupid_list t) [] = Inr (m, mx)"
    by (auto split: sum.splits)
  let ?t1 = "t\<lparr>segid_to_groupid_list := m,
        groupid_to_anti_list := add_antis mx mx (groupid_to_anti_list t)\<rparr>"
  from Cons.prems(1) g have run: "add_tuples rest ?t1 = Inr t'" by simp
  from tuple_step_inv [OF add_tuples_step [OF g] Cons.prems(2,3)]
  show ?case using Cons.IH [OF run] by blast
qed

lemma new_UnmergeTracker_inv: "new_UnmergeTracker L = Inr t \<Longrightarrow> tracker_inv t"
proof (cases "length L = 0")
  case True
  assume "new_UnmergeTracker L = Inr t"
  with True show ?thesis
    by (auto simp: new_UnmergeTracker_def tracker_inv_def getGroupIDs_def getAntiGroupIDs_def)
next
  case False
  assume "new_UnmergeTracker L = Inr t"
  with False have "add_tuples L \<lparr>segid_to_groupid_list = Map.empty,
      groupid_to_anti_list = Map.empty, is_empty = False\<rparr> = Inr t"
    by (simp add: new_UnmergeTracker_def)
  then show ?thesis
    by (rule add_tuples_inv) (simp_all add: tracker_inv_def getGroupIDs_def getAntiGroupIDs_def)
qed

lemma onMerge_frame:
  "onMerge t a b c = Inr t' \<Longrightarrow>
     groupid_to_anti_list t' = groupid_to_anti_list t \<and> is_empty t' = is_empty t"
  by (auto simp: onMerge_def Let_def split: if_splits)

lemma onMerge_anti: "onMerge t a b c = Inr t' \<Longrightarrow> getAntiGroupIDs t' g r = getAntiGroupIDs t g r"
  by (simp add: getAntiGroupIDs_def onMerge_frame)

lemma onMerge_groups:
  "onMerge t a b c = Inr t' \<Longrightarrow>
     getGroupIDs t' s [] =
       (if \<not> is_empty t \<and> s = c then getGroupIDs t a [] @ getGroupIDs t b []
        else getGroupIDs t s [])"
  by (auto simp: onMerge_def Let_def getGroupIDs_def split: if_splits option.splits)

lemma onMerge_inv:
  assumes m: "onMerge t a b c = Inr t'" and inv: "tracker_inv t"
  shows "tracker_inv t'"
proof -
  from inv have cl: "\<And>s g. g \<in> set (getGroupIDs t s []) \<Longrightarrow> g \<in> dom (groupid_to_anti_list t)"
    and em: "is_empty t \<Longrightarrow> getGroupIDs t s [] = []"
    and sym: "\<And>g h. h \<in> set (getAntiGroupIDs t g []) \<Longrightarrow> g \<in> set (getAntiGroupIDs t h [])" for s
    unfolding tracker_inv_def by blast+
  have "g \<in> dom (groupid_to_anti_list t')" if "g \<in> set (getGroupIDs t' s [])" for s g
    using that cl [of g s] cl [of g a] cl [of g b]
    by (auto simp: onMerge_groups [OF m] onMerge_frame [OF m] split: if_splits)
  moreover have "getGroupIDs t' s [] = []" if "is_empty t'" for s
    using that em [of s] by (simp add: onMerge_groups [OF m] onMerge_frame [OF m])
  moreover have "g \<in> set (getAntiGroupIDs t' h [])" if "h \<in> set (getAntiGroupIDs t' g [])" for g h
    using that sym [of h g] by (simp add: onMerge_anti [OF m])
  ultimately show ?thesis unfolding tracker_inv_def by blast
qed

lemma reachable_inv: "tracker_reachable t \<Longrightarrow> tracker_inv t"
  by (induction rule: tracker_reachable.induct) (auto intro: new_UnmergeTracker_inv onMerge_inv)

lemma scan_groups_spec:
  "\<forall>g \<in> set gs. g \<in> dom (groupid_to_anti_list t) \<Longrightarrow>
   scan_groups t gs gb carried =
     (\<not> (\<exists>g \<in> set gs. \<exists>h \<in> set (getAntiGroupIDs t g []). h \<in> set gb))"
proof (induction gs arbitrary: carried)
  case Nil
  show ?case by simp
next
  case (Cons g rest)
  from Cons.prems have "g \<in> dom (groupid_to_anti_list t)" by simp
  then have eq: "getAntiGroupIDs t g carried = getAntiGroupIDs t g []"
    by (auto simp: getAntiGroupIDs_def)
  have hit: "anti_hit gb l = (\<exists>h \<in> set l. h \<in> set gb)" for l
    by (auto simp: anti_hit_def list_ex_iff)
  from Cons.prems have "\<forall>g \<in> set rest. g \<in> dom (groupid_to_anti_list t)" by simp
  from Cons.IH [OF this] show ?case
    by (simp add: Let_def eq hit)
qed

lemma isValidMerge_spec:
  assumes "tracker_inv t"
  shows "isValidMerge t a b =
     (\<not> (\<exists>g \<in> set (getGroupIDs t a []). \<exists>h \<in> set (getAntiGroupIDs t g []).
            h \<in> set (getGroupIDs t b [])))"
proof (cases "is_empty t")
  case True
  with assms have "getGroupIDs t a [] = []" by (simp add: tracker_inv_def)
  with True show ?thesis by (simp add: isValidMerge_def)
next
  case False
  from assms have "\<forall>g \<in> set (getGroupIDs t a []). g \<in> dom (groupid_to_anti_list t)"
    by (simp add: tracker_inv_def)
  from scan_groups_spec [OF this] False show ?thesis
    by (simp add: isValidMerge_def)
qed

lemma add_tuples_anti_mono:
  "add_tuples L t = Inr t' \<Longrightarrow> set (getAntiGroupIDs t g []) \<subseteq> set (getAntiGroupIDs t' g [])"
proof (induction L arbitrary: t)
  case Nil
  then show ?case by simp
next
  case (Cons tup rest)
  from Cons.prems obtain m mx where
    gr: "add_groups tup (segid_to_groupid_list t) [] = Inr (m, mx)"
    by (auto split: sum.splits)
  let ?t1 = "t\<lparr>segid_to_groupid_list := m,
        groupid_to_anti_list := add_antis mx mx (groupid_to_anti_list t)\<rparr>"
  from Cons.prems gr have run: "add_tuples rest ?t1 = Inr t'" by simp
  from add_tuples_step [OF gr]
  have "set (getAntiGroupIDs t g []) \<subseteq> set (getAntiGroupIDs ?t1 g [])"
    unfolding tuple_step_def by blast
  with Cons.IH [OF run] show ?case by blast
qed

lemma add_tuples_pairs:
  "add_tuples L t = Inr t' \<Longrightarrow> tup \<in> set L \<Longrightarrow> g # segs \<in> set tup \<Longrightarrow>
   g' # segs' \<in> set tup \<Longrightarrow> g' \<noteq> g \<Longrightarrow> g' \<in> set (getAntiGroupIDs t' g [])"
proof (induction L arbitrary: t)
  case Nil
  then show ?case by simp
next
  case (Cons x rest)
  from Cons.prems(1) obtain m mx where
    gr: "add_groups x (segid_to_groupid_list t) [] = Inr (m, mx)"
    by (auto split: sum.splits)
  let ?t1 = "t\<lparr>segid_to_groupid_list := m,
        groupid_to_anti_list := add_antis mx mx (groupid_to_anti_list t)\<rparr>"
  from Cons.prems(1) gr have run: "add_tuples rest ?t1 = Inr t'" by simp
  show ?case
  proof (cases "tup = x")
    case True
    from Cons.prems(3,4) True have "g \<in> set (map hd x)" "g' \<in> set (map hd x)"
      by force+
    with add_tuples_step [OF gr] Cons.prems(5) have "g' \<in> set (getAntiGroupIDs ?t1 g [])"
      unfolding tuple_step_def by auto
    with add_tuples_anti_mono [OF run, of g] show ?thesis by blast
  next
    case False
    with Cons.prems(2) have "tup \<in> set rest" by simp
    from Cons.IH [OF run this Cons.prems(3,4,5)] show ?thesis .
  qed
qed

text \<open>
  Claim C2. In every tracker state a program can reach, \<^verbatim>\<open>isValidMerge(a, b)\<close> returns
  false exactly when some group id in the group list of \<open>a\<close> has an anti-partner that
  appears in the group list of \<open>b\<close>; otherwise it returns true. The vector
  \<^verbatim>\<open>anti_groups_a\<close> that the loop carries over is harmless, since the constructor gives
  every group id an entry in the anti map.
\<close>

theorem isValidMerge_rejects_iff:
  assumes "tracker_reachable t"
  shows "isValidMerge t a b = False \<longleftrightarrow>
     (\<exists>g \<in> set (getGroupIDs t a []). \<exists>h \<in> set (getAntiGroupIDs t g []).
        h \<in> set (getGroupIDs t b []))"
  using isValidMerge_spec [OF reachable_inv [OF assms], of a b] by simp

text \<open>
  The tracker built from one tuple with the groups \<open>{1, 2}\<close> and \<open>{3}\<close> rejects the
  pair \<open>(2, 3)\<close>.
\<close>

theorem isValidMerge_rejects_iff_witness:
  "\<exists>t. new_UnmergeTracker [[[1, 2], [3]]] = Inr t \<and> tracker_reachable t \<and>
     isValidMerge t 2 3 = False \<and>
     (\<exists>g \<in> set (getGroupIDs t 2 []). \<exists>h \<in> set (getAntiGroupIDs t g []).
        h \<in> set (getGroupIDs t 3 []))"
proof -
  obtain t where c: "new_UnmergeTracker [[[1, 2], [3]]] = Inr t"
    by (simp add: new_UnmergeTracker_def)
  then have r: "tracker_reachable t" by (rule tracker_reachable.constructed)
  from c have v: "isValidMerge t 2 3 = False"
    by (auto simp: new_UnmergeTracker_def at_or_empty_def others_of_def isValidMerge_def
        getGroupIDs_def getAntiGroupIDs_def anti_hit_def)
  from c r v isValidMerge_rejects_iff [OF r, of 2 3] show ?thesis by blast
qed

text \<open>
  Claim C5, as the code has it. After construction, for every tuple of the list and every
  coherent group of it with group id \<open>g\<close> (its first seed id), the anti list of \<open>g\<close>
  contains the group id \<open>g'\<close> of every group of the same tuple whose group id differs
  from \<open>g\<close>. The constructor compares group ids (\<^verbatim>\<open>other != groupid\<close>), not
  positions in the tuple.
\<close>

theorem anti_lists_pair_groups:
  assumes "new_UnmergeTracker input_list = Inr t"
    and "tup \<in> set input_list"
    and "g # segs \<in> set tup" and "g' # segs' \<in> set tup"
    and "g' \<noteq> g"
  shows "g' \<in> set (getAntiGroupIDs t g [])"
proof -
  from assms(2) have "length input_list \<noteq> 0" by auto
  with assms(1) have "add_tuples input_list \<lparr>segid_to_groupid_list = Map.empty,
      groupid_to_anti_list = Map.empty, is_empty = False\<rparr> = Inr t"
    by (simp add: new_UnmergeTracker_def)
  from add_tuples_pairs [OF this assms(2-5)] show ?thesis .
qed

theorem anti_lists_pair_groups_witness:
  "\<exists>t. new_UnmergeTracker [[[1, 2], [3], [4, 5]]] = Inr t \<and> 3 \<in> set (getAntiGroupIDs t 1 [])
     \<and> 4 \<in> set (getAntiGroupIDs t 1 [])"
proof -
  obtain t where c: "new_UnmergeTracker [[[1, 2], [3], [4, 5]]] = Inr t"
    by (simp add: new_UnmergeTracker_def)
  have "3 \<in> set (getAntiGroupIDs t 1 [])"
    by (rule anti_lists_pair_groups [OF c, of "[[1, 2], [3], [4, 5]]" 1 "[2]" 3 "[]"]) simp_all
  moreover have "4 \<in> set (getAntiGroupIDs t 1 [])"
    by (rule anti_lists_pair_groups [OF c, of "[[1, 2], [3], [4, 5]]" 1 "[2]" 4 "[5]"]) simp_all
  ultimately show ?thesis using c by blast
qed

text \<open>
  Claim C5 as stated fails when two coherent groups of one tuple start with the same
  seed id: for the tuple with the groups \<open>[1, 2]\<close> and \<open>[1, 3]\<close> both groups have the
  id 1, and the anti list of 1 does not contain the id of the other group.
\<close>

theorem anti_lists_same_id_counterexample:
  "case new_UnmergeTracker [[[1, 2], [1, 3]]] of
     Inl e \<Rightarrow> False
   | Inr t \<Rightarrow> getGroupIDs t 2 [] = [1] \<and> getGroupIDs t 3 [] = [1] \<and> 1 \<notin> set (getAntiGroupIDs t 1 [])"
  by (simp add: new_UnmergeTracker_def others_of_def at_or_empty_def getAntiGroupIDs_def
      getGroupIDs_def)

text \<open>
  Claim C8. In every reachable tracker state \<^verbatim>\<open>isValidMerge\<close> is symmetric, because
  the anti lists the constructor builds are symmetric and \<^verbatim>\<open>onMerge\<close> leaves them alone.
\<close>

theorem isValidMerge_symmetric:
  assumes "tracker_reachable t"
  shows "isValidMerge t a b = isValidMerge t b a"
proof -
  from reachable_inv [OF assms]
  have inv: "tracker_inv t" .
  then have sym: "\<And>g h. h \<in> set (getAntiGroupIDs t g []) \<Longrightarrow> g \<in> set (getAntiGroupIDs t h [])"
    unfolding tracker_inv_def by blast
  show ?thesis
    unfolding isValidMerge_spec [OF inv] using sym by blast
qed

theorem isValidMerge_symmetric_witness:
  "\<exists>t. new_UnmergeTracker [[[1, 2], [3]]] = Inr t \<and> tracker_reachable t \<and>
     isValidMerge t 2 3 = False \<and> isValidMerge t 3 2 = False"
proof -
  obtain t where c: "new_UnmergeTracker [[[1, 2], [3]]] = Inr t"
    by (simp add: new_UnmergeTracker_def)
  then have r: "tracker_reachable t" by (rule tracker_reachable.constructed)
  from c have v: "isValidMerge t 2 3 = False"
    by (auto simp: new_UnmergeTracker_def at_or_empty_def others_of_def isValidMerge_def
        getGroupIDs_def getAntiGroupIDs_def anti_hit_def)
  from c r v isValidMerge_symmetric [OF r, of 2 3] show ?thesis by simp
qed

text \<open>
  Claim C6. For a survivor \<open>c\<close> that is \<open>a\<close> or \<open>b\<close>, \<^verbatim>\<open>onMerge(a, b, c)\<close> returns
  normally and leaves \<open>c\<close> with the concatenation of the group lists of \<open>a\<close> and \<open>b\<close>;
  afterwards \<^verbatim>\<open>isValidMerge\<close> still decides by group lists and anti lists, and for the
  survivor against any other id it accepts exactly when both merged ids were acceptable.
\<close>

theorem onMerge_unions_groups:
  assumes "tracker_reachable t" and "c = a \<or> c = b"
  shows "\<exists>t'. onMerge t a b c = Inr t' \<and>
     getGroupIDs t' c [] = getGroupIDs t a [] @ getGroupIDs t b [] \<and>
     (\<forall>x y. isValidMerge t' x y =
        (\<not> (\<exists>g \<in> set (getGroupIDs t' x []). \<exists>h \<in> set (getAntiGroupIDs t' g []).
               h \<in> set (getGroupIDs t' y [])))) \<and>
     (\<forall>y. y \<noteq> c \<longrightarrow> isValidMerge t' c y = (isValidMerge t a y \<and> isValidMerge t b y))"
proof -
  from assms(2) have "\<exists>t'. onMerge t a b c = Inr t'"
    by (simp add: onMerge_def Let_def)
  then obtain t' where m: "onMerge t a b c = Inr t'" ..
  note inv = reachable_inv [OF assms(1)]
  note inv' = onMerge_inv [OF m inv]
  from inv have em: "is_empty t \<Longrightarrow> getGroupIDs t s [] = []" for s
    unfolding tracker_inv_def by blast
  have g: "getGroupIDs t' c [] = getGroupIDs t a [] @ getGroupIDs t b []"
    using em [of a] em [of b] em [of c] by (simp add: onMerge_groups [OF m])
  have o: "getGroupIDs t' y [] = getGroupIDs t y []" if "y \<noteq> c" for y
    using that by (simp add: onMerge_groups [OF m])
  have "isValidMerge t' c y = (isValidMerge t a y \<and> isValidMerge t b y)" if "y \<noteq> c" for y
    unfolding isValidMerge_spec [OF inv'] isValidMerge_spec [OF inv] g o [OF that]
      onMerge_anti [OF m]
    by auto
  with m g isValidMerge_spec [OF inv'] show ?thesis by blast
qed

theorem onMerge_unions_groups_witness:
  "\<exists>t t'. new_UnmergeTracker [[[2], [3]]] = Inr t \<and> onMerge t 1 2 1 = Inr t' \<and>
     getGroupIDs t 1 [] = [] \<and> getGroupIDs t' 1 [] = [2] \<and> isValidMerge t 1 3 \<and>
     isValidMerge t' 1 3 = False"
proof -
  obtain t where c: "new_UnmergeTracker [[[2], [3]]] = Inr t"
    by (simp add: new_UnmergeTracker_def)
  then have r: "tracker_reachable t" by (rule tracker_reachable.constructed)
  from c have g: "getGroupIDs t 1 [] = []" "getGroupIDs t 2 [] = [2]" "getGroupIDs t 3 [] = [3]"
      "getAntiGroupIDs t 2 [] = [3]" "isValidMerge t 1 3" "isValidMerge t 2 3 = False"
    by (auto simp: new_UnmergeTracker_def at_or_empty_def others_of_def isValidMerge_def
        getGroupIDs_def getAntiGroupIDs_def anti_hit_def)
  from onMerge_unions_groups [OF r, of 1 1 2] obtain t' where
    "onMerge t 1 2 1 = Inr t'" "getGroupIDs t' 1 [] = getGroupIDs t 1 [] @ getGroupIDs t 2 []"
    "\<forall>y. y \<noteq> 1 \<longrightarrow> isValidMerge t' 1 y = (isValidMerge t 1 y \<and> isValidMerge t 2 y)"
    by auto
  with c g show ?thesis by auto
qed

section \<open>Properties of the registry and of initialize\<close>

lemma get_after_free: "WaterzContext_get (WaterzContext_free reg i) i = None"
  by (simp add: WaterzContext_get_def WaterzContext_free_def split: option.splits)

lemma issued_dom: "registry_issued reg ids \<Longrightarrow> dom (contexts reg) \<subseteq> ids"
proof (induction rule: registry_issued.induct)
  case start
  show ?case by (simp add: initial_registry_def)
next
  case (created reg ids a reg')
  from created.hyps(2) have "dom (contexts reg') \<subseteq> insert (nextId reg) (dom (contexts reg))"
    by (auto simp: WaterzContext_createNew_def Let_def split: if_splits)
  with created.IH show ?case by blast
next
  case (freed reg ids i)
  have "dom (contexts (WaterzContext_free reg i)) \<subseteq> dom (contexts reg)"
    by (auto simp: WaterzContext_free_def split: option.splits if_splits)
  with freed.IH show ?case by blast
next
  case (written reg ids h)
  then show ?case by simp
qed

text \<open>
  Claim C10. After \<^verbatim>\<open>free(id)\<close>, \<^verbatim>\<open>get(id)\<close> returns the null pointer, and a second
  \<^verbatim>\<open>free(id)\<close> changes nothing: it erases no entry and deletes no object. In a registry
  that the program can reach, \<^verbatim>\<open>get\<close> on an id that was never issued returns the null
  pointer.
\<close>

theorem free_idempotent:
  "WaterzContext_get (WaterzContext_free reg i) i = None \<and>
   WaterzContext_free (WaterzContext_free reg i) i = WaterzContext_free reg i \<and>
   free (free reg state) state = free reg state \<and>
   (registry_issued reg ids \<longrightarrow> j \<notin> ids \<longrightarrow> WaterzContext_get reg j = None)"
proof -
  have a: "WaterzContext_get (WaterzContext_free reg k) k = None" for k
    by (rule get_after_free)
  have b: "WaterzContext_free (WaterzContext_free reg k) k = WaterzContext_free reg k" for k
    using a [of k] by (simp add: WaterzContext_free_def [of "WaterzContext_free reg k"])
  have c: "WaterzContext_get reg j = None" if "registry_issued reg ids" "j \<notin> ids"
    using issued_dom [OF that(1)] that(2) by (auto simp: WaterzContext_get_def)
  from a b c show ?thesis by (simp add: free_def)
qed

theorem free_idempotent_witness:
  "\<exists>a reg. WaterzContext_createNew (initial_registry :: (nat, nat) Registry) = Inr (a, reg) \<and>
     registry_issued reg {0} \<and> WaterzContext_get reg 0 = Some a \<and>
     WaterzContext_get (WaterzContext_free reg 0) 0 = None \<and>
     WaterzContext_free (WaterzContext_free reg 0) 0 = WaterzContext_free reg 0 \<and>
     WaterzContext_get reg 7 = None"
proof -
  obtain a reg where c: "WaterzContext_createNew (initial_registry :: (nat, nat) Registry) = Inr (a, reg)"
    by (simp add: WaterzContext_createNew_def initial_registry_def Let_def)
  from registry_issued.created [OF registry_issued.start c]
  have r: "registry_issued reg {0}" by (simp add: initial_registry_def)
  from c have g: "WaterzContext_get reg 0 = Some a"
    by (auto simp: WaterzContext_createNew_def initial_registry_def Let_def WaterzContext_get_def)
  from free_idempotent [of reg 0 "\<lparr>state_context = 0, state_metrics = None :: unit option\<rparr>" "{0}" 7] r c g show ?thesis by auto
qed

text \<open>
  Claim C3 fails on the code: with the unmerge list omitted (the null pointer, the default
  of the declaration), \<^verbatim>\<open>initialize\<close> never returns a handle, whatever the other
  arguments are. When nothing else goes wrong it reaches
  \<^verbatim>\<open>context->unmergeList = *unmergeList\<close> and reads through the null pointer, as for
  the volume \<open>[2, 1, 3]\<close> with \<^verbatim>\<open>findFragments\<close> false and no ground truth.
\<close>

theorem initialize_null_unmergeList:
  "(\<exists>f. initialize be reg width height depth affinity_data segmentation_data ground_truth_data
          affThresholdLow affThresholdHigh findFragments None = Inl f) \<and>
   initialize example_backend initial_registry 3 1 1 [] [2, 1, 3] None () () False None
     = Inl NullPointer"
proof
  show "\<exists>f. initialize be reg width height depth affinity_data segmentation_data
      ground_truth_data affThresholdLow affThresholdHigh findFragments None = Inl f"
    by (simp add: initialize_def Let_def split: sum.splits prod.splits)
  show "initialize example_backend initial_registry 3 1 1 [] [2, 1, 3] None () () False None
     = Inl NullPointer"
    by (simp add: initialize_def fragments_and_sizes_def count_sizes_def resize_sizes_def max_element_def
        example_backend_def WaterzContext_createNew_def initial_registry_def Let_def)
qed

section \<open>The sizes of a supplied segmentation\<close>

text \<open>The number of voxels of a volume whose seed id is \<open>i\<close>.\<close>

definition voxel_count :: "SegID list \<Rightarrow> nat \<Rightarrow> nat" where
  "voxel_count S i = length (filter (\<lambda>s. unat s = i) S)"

lemma voxel_count_Cons: "voxel_count (s # S) i = (if unat s = i then 1 else 0) + voxel_count S i"
  by (simp add: voxel_count_def)

lemma voxel_count_le: "voxel_count S i \<le> length S"
  by (simp add: voxel_count_def)

lemma count_voxels_counts:
  "\<forall>s \<in> set vs. unat s < length sizes \<Longrightarrow>
   \<exists>sizes'. count_voxels vs sizes = Inr sizes' \<and> length sizes' = length sizes \<and>
     (\<forall>i < length sizes. sizes' ! i = sizes ! i + of_nat (voxel_count vs i))"
proof (induction vs arbitrary: sizes)
  case Nil
  show ?case by (simp add: voxel_count_def)
next
  case (Cons s rest)
  let ?sizes1 = "sizes[unat s := sizes ! unat s + 1]"
  from Cons.prems have "\<forall>x \<in> set rest. unat x < length ?sizes1" by simp
  from Cons.IH [OF this] obtain sizes' where
    r: "count_voxels rest ?sizes1 = Inr sizes'" and l: "length sizes' = length sizes"
    and c: "\<forall>i < length sizes. sizes' ! i = ?sizes1 ! i + of_nat (voxel_count rest i)"
    by auto
  from Cons.prems have s: "unat s < length sizes" by simp
  have "sizes' ! i = sizes ! i + of_nat (voxel_count (s # rest) i)" if "i < length sizes" for i
    using c that s by (simp add: voxel_count_Cons nth_list_update)
  with r l s show ?case by simp
qed

lemma count_voxels_from_zero:
  assumes "\<forall>s \<in> set vs. unat s < n"
  shows "\<exists>sizes'. count_voxels vs (replicate n 0) = Inr sizes' \<and> length sizes' = n \<and>
     (\<forall>i < n. sizes' ! i = of_nat (voxel_count vs i))"
  using count_voxels_counts [of vs "replicate n 0"] assms by auto

lemma max_element_whole:
  assumes "m \<in> set S" and "\<forall>s \<in> set S. s \<le> m"
  shows "max_element S (length S) = Inr m"
proof -
  from assms(1) obtain x xs where S: "S = x # xs" by (cases S) auto
  have "fold max xs x = Max (set (x # xs))"
    by (rule Max.set_eq_fold [symmetric])
  also have "\<dots> = m"
    using assms unfolding S by (intro Max_eqI) auto
  finally show ?thesis by (simp add: max_element_def S)
qed

lemma below_capacity_no_wrap:
  fixes m capacity :: "64 word"
  assumes "unat m + 1 \<le> unat capacity"
  shows "unat (m + 1) = unat m + 1"
proof -
  have "unat capacity < 2 ^ 64" using unsigned_less [of capacity] by simp
  with assms have "unat m + 1 < 2 ^ 64" by simp
  then show ?thesis by (simp add: unat_word_ariths)
qed

lemma num_voxels_whole:
  fixes width height depth :: "64 word"
  assumes "unat width * unat height * unat depth = length S" and "length S < 2 ^ 64"
  shows "unat (width * height * depth) = length S"
  using assms by (simp add: unat_word_ariths mod_mult_right_eq mod_mult_left_eq)

text \<open>
  Claim C7, as the code has it. With \<^verbatim>\<open>findFragments\<close> false and a supplied segmentation
  \<open>S\<close> that holds the \<open>width \<times> height \<times> depth\<close> voxels of the volume, at least one and
  fewer than \<open>2\<^sup>6\<^sup>4\<close>, and whose largest id \<open>m\<close> leaves \<open>m + 1\<close> within the length that
  the sizes vector can be resized to: the segmentation is left as it is, \<^verbatim>\<open>watershed\<close>
  plays no part in the result, the sizes array has length \<open>m + 1\<close>, and for every \<open>i\<close> up
  to \<open>m\<close> its entry \<open>i\<close> is the number of voxels with seed id \<open>i\<close>.
\<close>

theorem sizes_from_segmentation:
  assumes vol: "unat width * unat height * unat depth = length S"
    and fits: "length S < 2 ^ 64"
    and m: "m \<in> set S" "\<forall>s \<in> set S. s \<le> m"
    and cap: "unat m + 1 \<le> unat (sizes_capacity be)"
  shows "\<exists>sizes.
     fragments_and_sizes be width height depth affinity_data S lo hi False = Inr (S, sizes) \<and>
     (\<forall>w. fragments_and_sizes (be\<lparr>watershed := w\<rparr>) width height depth affinity_data S lo hi False
            = Inr (S, sizes)) \<and>
     length sizes = unat m + 1 \<and>
     (\<forall>i \<le> unat m. unat (sizes ! i) = voxel_count S i)"
proof -
  note nv = num_voxels_whole [OF vol fits]
  define n where "n = unat (m + 1)"
  have len: "n = unat m + 1"
    unfolding n_def by (rule below_capacity_no_wrap [OF cap])
  from cap len have rs: "resize_sizes (sizes_capacity be) (m + 1) = Inr (replicate n 0)"
    by (simp add: resize_sizes_def n_def)
  have "\<forall>s \<in> set S. unat s < n"
    using m(2) by (auto simp: len word_le_nat_alt less_Suc_eq_le)
  from count_voxels_from_zero [OF this] obtain sizes where
    r: "count_voxels S (replicate n 0) = Inr sizes"
    and l: "length sizes = n"
    and c: "\<forall>i < n. sizes ! i = of_nat (voxel_count S i)"
    by blast
  have cs: "count_sizes (sizes_capacity be) S (width * height * depth) = Inr sizes"
    using r by (simp add: count_sizes_def nv max_element_whole [OF m] rs)
  have "unat (sizes ! i) = voxel_count S i" if "i \<le> unat m" for i
  proof -
    from that c have "sizes ! i = of_nat (voxel_count S i)" by (simp add: len)
    moreover have "voxel_count S i < 2 ^ LENGTH(64)"
      using voxel_count_le [of S i] fits by simp
    ultimately show ?thesis by (simp add: unat_of_nat)
  qed
  with cs l len show ?thesis
    by (simp add: fragments_and_sizes_def)
qed

theorem sizes_from_segmentation_witness:
  "\<exists>sizes. fragments_and_sizes example_backend 5 1 1 [] [1, 2, 2, 0, 5] () () False
       = Inr ([1, 2, 2, 0, 5], sizes) \<and>
     length sizes = 6 \<and> unat (sizes ! 2) = 2 \<and> unat (sizes ! 3) = 0"
proof -
  have "unat (5 :: 64 word) * unat (1 :: 64 word) * unat (1 :: 64 word) = length [1, 2, 2, 0, 5 :: SegID]"
    by simp
  moreover have "unat (5 :: 64 word) + 1 \<le> unat (sizes_capacity example_backend)"
    by (simp add: example_backend_def)
  ultimately obtain sizes where
    "fragments_and_sizes example_backend 5 1 1 [] [1, 2, 2, 0, 5] () () False
       = Inr ([1, 2, 2, 0, 5], sizes)"
    "length sizes = unat (5 :: 64 word) + 1"
    "\<forall>i \<le> unat (5 :: 64 word). unat (sizes ! i) = voxel_count [1, 2, 2, 0, 5] i"
    using sizes_from_segmentation [of 5 1 1 "[1, 2, 2, 0, 5]" 5 example_backend "[]" "()" "()"]
    by auto
  then show ?thesis by (auto simp: voxel_count_def)
qed

text \<open>
  Claim C7 as stated fails in two ways. For a segmentation that holds the id
  \<open>2\<^sup>6\<^sup>4 - 1\<close>, \<^verbatim>\<open>maxId + 1\<close> wraps to 0, the sizes vector is resized to length 0 (not
  \<open>max(S) + 1\<close>), and the first \<^verbatim>\<open>sizes[...]++\<close> writes outside it. For the one-voxel
  segmentation with the id \<open>2\<^sup>6\<^sup>1\<close>, \<open>max(S) + 1\<close> is above the \<^verbatim>\<open>max_size()\<close> of the sizes
  vector, \<^verbatim>\<open>resize\<close> throws and there is no sizes array.
\<close>

theorem sizes_max_id_counterexample:
  "fragments_and_sizes example_backend 1 1 1 [] [18446744073709551615] () () False
     = Inl OutOfBounds \<and>
   fragments_and_sizes example_backend 1 1 1 [] [2305843009213693952] () () False
     = Inl AllocationFailed"
  by (simp add: fragments_and_sizes_def count_sizes_def resize_sizes_def max_element_def
      example_backend_def)

text \<open>
  The bound of the theorem is where the code starts to fail: with the largest id \<open>m\<close> at
  \<open>2\<^sup>6\<^sup>4 - 1\<close> the counting loop writes out of bounds, and otherwise with \<open>m + 1\<close> above
  what the sizes vector can be resized to, \<^verbatim>\<open>resize\<close> throws.
\<close>

lemma sizes_beyond_capacity:
  assumes vol: "unat width * unat height * unat depth = length S"
    and fits: "length S < 2 ^ 64"
    and m: "m \<in> set S" "\<forall>s \<in> set S. s \<le> m"
    and cap: "unat (sizes_capacity be) < unat m + 1"
  shows "fragments_and_sizes be width height depth affinity_data S lo hi False =
     (if m = - 1 then Inl OutOfBounds else Inl AllocationFailed)"
proof -
  note nv = num_voxels_whole [OF vol fits]
  from m(1) obtain x xs where S: "S = x # xs" by (cases S) auto
  show ?thesis
  proof (cases "m = - 1")
    case True
    then have "resize_sizes (sizes_capacity be) (m + 1) = Inr []"
      by (simp add: resize_sizes_def)
    then have "count_sizes (sizes_capacity be) S (width * height * depth) = count_voxels S []"
      by (simp add: count_sizes_def nv max_element_whole [OF m])
    also have "\<dots> = Inl OutOfBounds" by (simp add: S)
    finally show ?thesis using True by (simp add: fragments_and_sizes_def)
  next
    case False
    then have "1 + m \<noteq> 0" by (metis add.commute add_eq_0_iff)
    then have "unat (m + 1) = unat m + 1"
      using unatSuc [of m] by (simp add: add.commute)
    with cap have "resize_sizes (sizes_capacity be) (m + 1) = Inl AllocationFailed"
      by (simp add: resize_sizes_def)
    then have "count_sizes (sizes_capacity be) S (width * height * depth) = Inl AllocationFailed"
      by (simp add: count_sizes_def nv max_element_whole [OF m])
    with False show ?thesis by (simp add: fragments_and_sizes_def)
  qed
qed

section \<open>Properties of runs\<close>

lemma onMerge_history:
  "MergeHistoryVisitor_onMerge vis a b c score = Inr vis' \<Longrightarrow>
     history vis' = history vis @ [(a, b, c, score)]"
  by (auto simp: MergeHistoryVisitor_onMerge_def RegionMergingVisitor_onMerge_def
      split: option.splits sum.splits)

lemma perform_merge_not_Stop: "perform_merge sf rm vis n e current \<noteq> Stop x"
  by (simp add: perform_merge_def Let_def split: prod.splits sum.splits)

lemma perform_merge_counts:
  "perform_merge sf rm vis n e current = Continue (rm', vis', n') \<Longrightarrow>
     length (history vis') + n = length (history vis) + n'"
  by (auto simp: perform_merge_def Let_def dest!: onMerge_history
      split: if_splits prod.splits sum.splits)

lemma merge_step_counts:
  assumes "merge_step sf threshold (rm, vis, n) = r"
    and "r = Stop (rm', vis', n') \<or> r = Continue (rm', vis', n')"
  shows "length (history vis') + n = length (history vis) + n'"
proof -
  from assms consider
      "vis' = vis \<and> n' = n"
    | rm1 e current where "perform_merge sf rm1 vis n e current = Continue (rm', vis', n')"
    by (auto simp: merge_step_def Let_def perform_merge_not_Stop
        split: list.splits if_splits prod.splits)
  then show ?thesis
  proof cases
    case 1
    then show ?thesis by simp
  next
    case 2
    then show ?thesis by (rule perform_merge_counts)
  qed
qed

lemma run_counts:
  "run sf threshold s = Inr s' \<Longrightarrow>
     length (history (fst (snd s'))) + snd (snd s) = length (history (fst (snd s))) + snd (snd s')"
proof (induction sf threshold s rule: run.induct)
  case (1 sf threshold s)
  obtain rm vis n where s: "s = (rm, vis, n)" by (cases s) auto
  show ?case
  proof (cases "merge_step sf threshold s")
    case (Stop x)
    with "1.prems" have "s' = x" by simp
    with Stop s merge_step_counts [of sf threshold rm vis n _ "fst s'" "fst (snd s')" "snd (snd s')"]
    show ?thesis by simp
  next
    case (Continue x)
    with "1.prems" have r: "run sf threshold x = Inr s'" by simp
    from "1.IH" [OF Continue r]
    have "length (history (fst (snd s'))) + snd (snd x) = length (history (fst (snd x))) + snd (snd s')" .
    moreover from Continue s merge_step_counts [of sf threshold rm vis n _ "fst x" "fst (snd x)" "snd (snd x)"]
    have "length (history (fst (snd x))) + n = length (history vis) + snd (snd x)" by simp
    ultimately show ?thesis using s by simp
  next
    case (Failed f)
    with "1.prems" show ?thesis by simp
  qed
qed

lemma mergeUntil_counts:
  "RegionMerging_mergeUntil sf threshold rm vis = Inr (rm', vis', merged) \<Longrightarrow>
     length (history vis') = length (history vis) + merged"
  using run_counts [of sf threshold "(rm, vis, 0)" "(rm', vis', merged)"]
  by (simp add: RegionMerging_mergeUntil_def)

lemma new_visitor_history: "new_mergeHistoryVisitor l = Inr vis \<Longrightarrow> history vis = []"
  by (auto simp: new_mergeHistoryVisitor_def setUnmergeTracker_def split: if_splits sum.splits)

lemma body_no_merge:
  assumes "mergeUntil_body be ctx state threshold = Inr (h, state', ctx')" and "h = []"
  shows "segmentation ctx' = segmentation ctx"
proof -
  from assms(1) obtain vis rm rm' vis' merged where
    v: "new_mergeHistoryVisitor (unmergeList ctx) = Inr vis"
    and e: "RegionMerging_mergeUntil (scoring be) threshold rm vis = Inr (rm', vis', merged)"
    and h: "h = history vis'"
    and s: "merged = 0 \<Longrightarrow> segmentation ctx' = segmentation ctx"
    by (auto simp: mergeUntil_body_def split: sum.splits option.splits if_splits)
  from mergeUntil_counts [OF e] new_visitor_history [OF v] h assms(2) have "merged = 0"
    by simp
  then show ?thesis by (rule s)
qed

lemma get_contexts: "WaterzContext_get reg i = contexts reg i"
  by (cases "contexts reg i") (auto simp: WaterzContext_get_def)

text \<open>
  Claim C9. If a call of \<^verbatim>\<open>mergeUntil\<close> returns an empty history, the engine reported
  zero merges, so the segmentation is not extracted: the volume the context refers to is
  the same after the call as before.
\<close>

theorem no_merge_keeps_segmentation:
  assumes "mergeUntil be reg state threshold = Inr (h, state', reg')" and "h = []"
  shows "segmentation_of reg' state' = segmentation_of reg state"
proof -
  from assms(1) obtain a ctx ctx' where
    g: "WaterzContext_get reg (state_context state) = Some a" and c: "heap reg a = Some ctx"
    and b: "mergeUntil_body be ctx state threshold = Inr (h, state', ctx')"
    and r: "reg' = reg\<lparr>heap := (heap reg)(a \<mapsto> ctx')\<rparr>"
    by (auto simp: mergeUntil_def split: option.splits sum.splits)
  from b have "state_context state' = state_context state"
    by (auto simp: mergeUntil_body_def split: sum.splits option.splits if_splits)
  with g c r body_no_merge [OF b assms(2)] show ?thesis
    by (simp add: segmentation_of_def get_contexts)
qed

theorem no_merge_keeps_segmentation_witness:
  "\<exists>state reg reg' state'.
     initialize example_backend initial_registry 3 1 1 [] [2, 1, 3] None () () False (Some [])
       = Inr (state, reg) \<and>
     mergeUntil example_backend reg state 1 = Inr ([], state', reg') \<and>
     segmentation_of reg state = Some [2, 1, 3] \<and>
     segmentation_of reg' state' = Some [2, 1, 3]"
proof -
  obtain state reg where i:
    "initialize example_backend initial_registry 3 1 1 [] [2, 1, 3] None () () False (Some [])
       = Inr (state, reg)"
    by (simp add: initialize_def fragments_and_sizes_def count_sizes_def resize_sizes_def max_element_def
        example_backend_def WaterzContext_createNew_def initial_registry_def Let_def)
  then have s: "segmentation_of reg state = Some [2, 1, 3]"
    by (auto simp: initialize_def fragments_and_sizes_def count_sizes_def resize_sizes_def max_element_def
        example_backend_def WaterzContext_createNew_def initial_registry_def Let_def
        segmentation_of_def WaterzContext_get_def)
  from i obtain state' reg' where m: "mergeUntil example_backend reg state 1 = Inr ([], state', reg')"
    by (auto simp: initialize_def fragments_and_sizes_def count_sizes_def resize_sizes_def max_element_def
        example_backend_def WaterzContext_createNew_def initial_registry_def Let_def
        mergeUntil_def mergeUntil_body_def WaterzContext_get_def new_mergeHistoryVisitor_def
        new_RegionMerging_def current_score_def upt_rec
        RegionMerging_mergeUntil_def merge_step_def perform_merge_def edge_live_def)
  from no_merge_keeps_segmentation [OF m] i s m show ?thesis by auto
qed

lemma body_ignores_ids:
  "mergeUntil_body be (ctx\<lparr>context_id := i\<rparr>) (state\<lparr>state_context := j\<rparr>) threshold =
     (case mergeUntil_body be ctx state threshold of
        Inl f \<Rightarrow> Inl f
      | Inr (h, state', ctx') \<Rightarrow> Inr (h, state'\<lparr>state_context := j\<rparr>, ctx'\<lparr>context_id := i\<rparr>))"
  by (simp add: mergeUntil_body_def split: sum.splits option.splits prod.splits)

lemma body_keeps_context: "mergeUntil_body be ctx state threshold = Inr (h, state', ctx') \<Longrightarrow>
    state_context state' = state_context state"
  by (auto simp: mergeUntil_body_def split: sum.splits option.splits if_splits)

lemma issued_below: "registry_issued reg ids \<Longrightarrow> \<forall>i \<in> ids. i < nextId reg"
proof (induction rule: registry_issued.induct)
  case start
  show ?case by simp
next
  case (created reg ids a reg')
  from created.hyps(2) have "nextId reg' = nextId reg + 1"
    by (auto simp: WaterzContext_createNew_def Let_def split: if_splits)
  with created.IH show ?case by auto
next
  case (freed reg ids i)
  have "nextId (WaterzContext_free reg i) = nextId reg"
    by (simp add: WaterzContext_free_def split: option.splits)
  with freed.IH show ?case by simp
next
  case (written reg ids h)
  then show ?case by simp
qed

lemma issued_fresh: "registry_issued reg ids \<Longrightarrow> nextId reg \<notin> dom (contexts reg)"
  using issued_dom [of reg ids] issued_below [of reg ids] by auto

text \<open>The context object that \<^verbatim>\<open>initialize\<close> leaves behind, but for its id.\<close>

definition initialized_context ::
  "('aff, 'st, 'sc::linorder, 'm) Backend \<Rightarrow> 64 word \<Rightarrow> 64 word \<Rightarrow> 64 word \<Rightarrow> 'aff list \<Rightarrow> SegID list
    \<Rightarrow> GtID list option \<Rightarrow> 64 word list \<Rightarrow> UnmergeGroupListTupleList \<Rightarrow> ('st, 'sc) WaterzContext" where
  "initialized_context be width height depth affinity_data seg gt sizes l =
     \<lparr>context_id = 0,
      regionMerging = Some (new_RegionMerging (scoring be)
         (get_region_graph be affinity_data (width, height, depth) seg (of_nat (length sizes) - 1))),
      segmentation = Some seg, groundtruth = gt, unmergeList = l\<rparr>"

lemma initialize_result:
  assumes iss: "registry_issued reg ids"
    and ini: "initialize be reg width height depth affinity_data segmentation_data gt
           lo hi findFragments ul = Inr (state, reg')"
  shows "\<exists>seg sizes l a.
     fragments_and_sizes be width height depth affinity_data segmentation_data lo hi findFragments
       = Inr (seg, sizes) \<and> ul = Some l \<and>
     state = \<lparr>state_context = nextId reg, state_metrics = None\<rparr> \<and>
     WaterzContext_get reg' (nextId reg) = Some a \<and>
     heap reg' a = Some ((initialized_context be width height depth affinity_data seg gt sizes l)
                           \<lparr>context_id := nextId reg\<rparr>)"
proof -
  from ini obtain seg sizes where
    f: "fragments_and_sizes be width height depth affinity_data segmentation_data lo hi findFragments
       = Inr (seg, sizes)"
    by (auto simp: initialize_def split: sum.splits)
  from ini f obtain a reg1 where c: "WaterzContext_createNew reg = Inr (a, reg1)"
    by (auto simp: initialize_def Let_def split: sum.splits)
  from ini f c obtain l where l: "ul = Some l"
    by (auto simp: initialize_def Let_def split: option.splits)
  from c issued_fresh [OF iss] have g: "contexts reg1 (nextId reg) = Some a"
    by (auto simp: WaterzContext_createNew_def Let_def split: if_splits)
  from ini f c l have
    "state = \<lparr>state_context = nextId reg, state_metrics = None\<rparr>"
    "contexts reg' = contexts reg1"
    "heap reg' a = Some ((initialized_context be width height depth affinity_data seg gt sizes l)
                           \<lparr>context_id := nextId reg\<rparr>)"
    by (auto simp: initialize_def Let_def initialized_context_def split: option.splits)
  with f l g show ?thesis by (simp add: get_contexts)
qed

text \<open>
  Claim C4. Two complete runs (\<^verbatim>\<open>initialize\<close>, then \<^verbatim>\<open>mergeUntil\<close> at one threshold) on
  the same inputs, started in any two registry states the program can reach, return the
  same merge history, entry for entry with the scores, and leave the same segmentation.
  The run reads nothing of the process-wide state but the context it has created itself.
\<close>

theorem runs_are_reproducible:
  fixes be :: "('aff, 'st, 'sc::linorder, 'm) Backend"
  assumes "registry_issued reg1 ids1" and "registry_issued reg2 ids2"
    and "complete_run be reg1 width height depth affinity_data segmentation_data gt lo hi
           findFragments ul [threshold] = Inr r1"
    and "complete_run be reg2 width height depth affinity_data segmentation_data gt lo hi
           findFragments ul [threshold] = Inr r2"
  shows "r1 = r2"
proof -
  have one: "\<exists>seg sizes l h state' ctx'.
      fragments_and_sizes be width height depth affinity_data segmentation_data lo hi findFragments
       = Inr (seg, sizes) \<and> ul = Some l \<and>
      mergeUntil_body be (initialized_context be width height depth affinity_data seg gt sizes l)
        \<lparr>state_context = 0, state_metrics = None\<rparr> threshold = Inr (h, state', ctx') \<and>
      r = (h, segmentation ctx')"
    if iss: "registry_issued reg ids"
      and run: "complete_run be reg width height depth affinity_data segmentation_data gt lo hi
           findFragments ul [threshold] = Inr r"
    for reg :: "('st, 'sc) Registry" and ids r
  proof -
    from run obtain state reg' where
      ini: "initialize be reg width height depth affinity_data segmentation_data gt
           lo hi findFragments ul = Inr (state, reg')"
      by (auto simp: complete_run_def split: sum.splits)
    from initialize_result [OF iss ini] obtain seg sizes l a where
      f: "fragments_and_sizes be width height depth affinity_data segmentation_data lo hi findFragments
         = Inr (seg, sizes)" and l: "ul = Some l"
      and s: "state = \<lparr>state_context = nextId reg, state_metrics = None\<rparr>"
      and g: "WaterzContext_get reg' (nextId reg) = Some a"
      and c: "heap reg' a = Some ((initialized_context be width height depth affinity_data seg gt sizes l)
                           \<lparr>context_id := nextId reg\<rparr>)"
      by blast
    let ?c0 = "initialized_context be width height depth affinity_data seg gt sizes l"
    let ?s0 = "\<lparr>state_context = 0, state_metrics = None :: 'm option\<rparr>"
    have s': "state = ?s0\<lparr>state_context := nextId reg\<rparr>" by (simp add: s)
    from run ini obtain h state'' reg'' where
      m: "mergeUntil be reg' state threshold = Inr (h, state'', reg'')"
      and r: "r = (h, segmentation_of reg'' state'')"
      by (auto simp: complete_run_def split: sum.splits)
    from m g c s obtain ctx'' where
      b: "mergeUntil_body be (?c0\<lparr>context_id := nextId reg\<rparr>) state threshold = Inr (h, state'', ctx'')"
      and r'': "reg'' = reg'\<lparr>heap := (heap reg')(a \<mapsto> ctx'')\<rparr>"
      by (auto simp: mergeUntil_def split: sum.splits)
    from body_keeps_context [OF b] s have "state_context state'' = nextId reg" by simp
    with r r'' g have r2: "r = (h, segmentation ctx'')"
      by (simp add: segmentation_of_def get_contexts)
    from b obtain state' ctx' where
      b0: "mergeUntil_body be ?c0 ?s0 threshold = Inr (h, state', ctx')"
      and "ctx'' = ctx'\<lparr>context_id := nextId reg\<rparr>"
      unfolding s' body_ignores_ids by (auto split: sum.splits)
    with r2 f l show ?thesis by auto
  qed
  from one [OF assms(1,3)] one [OF assms(2,4)] show ?thesis by auto
qed

lemmas frontend_eval =
  complete_run_def initialize_def fragments_and_sizes_def count_sizes_def resize_sizes_def max_element_def
  example_backend_def WaterzContext_createNew_def initial_registry_def Let_def
  mergeUntil_def mergeUntil_body_def WaterzContext_get_def segmentation_of_def
  new_mergeHistoryVisitor_def setUnmergeTracker_def new_RegionMerging_def extractSegmentation_def

lemmas engine_eval =
  RegionMerging_mergeUntil_def merge_step_def perform_merge_def edge_live_def resolve_def
  current_score_def
  merge_nodes_def delete_self_loops_def joins_def incident_def reassign_edge_def
  find_parallel_def redirect_def delete_edge_def upt_rec

lemmas visitor_eval =
  RegionMergingVisitor_isValidMerge_def MergeHistoryVisitor_onMerge_def
  RegionMergingVisitor_onMerge_def isValidMerge_def onMerge_def getGroupIDs_def
  getAntiGroupIDs_def anti_hit_def new_UnmergeTracker_def at_or_empty_def others_of_def

text \<open>
  Claim C1 fails on the code. The unmerge list forbids the seeds 2 and 3 from sharing a
  region; the region graph has the edges \<open>1\<midarrow>2\<close> (score 2) and \<open>1\<midarrow>3\<close> (score 6). The direct
  run at threshold 10 merges 2 into 1 and then rejects \<open>1\<midarrow>3\<close>, because region 1 has
  inherited the group of seed 2. The run at threshold 5 and then 10 performs the same first
  merge, but the second call builds a new tracker from the list, which knows nothing of
  that merge, and merges 3 into 1: the concatenated history has one entry more, the final
  segmentation differs, and the seeds 2 and 3 end in one region.
\<close>

theorem resumed_run_breaks_constraint:
  "complete_run example_backend initial_registry 3 1 1 [] [2, 1, 3] None () () False
     (Some [[[2], [3]]]) [10] = Inr ([(1, 2, 1, 2)], Some [1, 1, 3]) \<and>
   complete_run example_backend initial_registry 3 1 1 [] [2, 1, 3] None () () False
     (Some [[[2], [3]]]) [5, 10] = Inr ([(1, 2, 1, 2), (1, 3, 1, 6)], Some [1, 1, 1])"
  by (simp add: frontend_eval engine_eval visitor_eval)

theorem runs_are_reproducible_witness:
  "\<exists>a reg2. WaterzContext_createNew (initial_registry :: (nat, nat) Registry) = Inr (a, reg2) \<and>
     registry_issued reg2 {0} \<and>
     complete_run example_backend initial_registry 3 1 1 [] [2, 1, 3] None () () False (Some []) [10]
       = Inr ([(1, 2, 1, 2), (1, 3, 1, 6)], Some [1, 1, 1]) \<and>
     complete_run example_backend reg2 3 1 1 [] [2, 1, 3] None () () False (Some []) [10]
       = Inr ([(1, 2, 1, 2), (1, 3, 1, 6)], Some [1, 1, 1])"
proof -
  obtain a reg2 where c: "WaterzContext_createNew (initial_registry :: (nat, nat) Registry) = Inr (a, reg2)"
    by (simp add: WaterzContext_createNew_def initial_registry_def Let_def)
  from registry_issued.created [OF registry_issued.start c]
  have i2: "registry_issued reg2 {0}" by (simp add: initial_registry_def)
  have r1: "complete_run example_backend initial_registry 3 1 1 [] [2, 1, 3] None () () False (Some []) [10]
       = Inr ([(1, 2, 1, 2), (1, 3, 1, 6)], Some [1, 1, 1])"
    by (simp add: frontend_eval engine_eval visitor_eval)
  from c obtain r2 where r2:
    "complete_run example_backend reg2 3 1 1 [] [2, 1, 3] None () () False (Some []) [10] = Inr r2"
    by (auto simp: frontend_eval engine_eval visitor_eval)
  from runs_are_reproducible [OF registry_issued.start i2 r1 r2] c i2 r1 r2 show ?thesis
    by auto
qed

section \<open>The engine resumes\<close>

text \<open>The order of the queue: by score, ties by edge id.\<close>

definition entry_le :: "('sc::linorder \<times> nat) \<Rightarrow> ('sc \<times> nat) \<Rightarrow> bool" where
  "entry_le x y \<longleftrightarrow> fst x < fst y \<or> (fst x = fst y \<and> snd x \<le> snd y)"

lemma entry_le_total: "\<not> entry_le x y \<Longrightarrow> entry_le y x"
  by (auto simp: entry_le_def)

lemma entry_le_trans: "entry_le x y \<Longrightarrow> entry_le y z \<Longrightarrow> entry_le x z"
  by (auto simp: entry_le_def)

lemma push_entry_le: "push x q = (case q of [] \<Rightarrow> [x] | y # ys \<Rightarrow> if entry_le x y then x # y # ys else y # push x ys)"
  by (cases q) (simp_all add: entry_le_def)

lemma set_push: "set (push x q) = insert x (set q)"
  by (induction q) auto

lemma sorted_push: "sorted_wrt entry_le q \<Longrightarrow> sorted_wrt entry_le (push x q)"
proof (induction q)
  case Nil
  show ?case by simp
next
  case (Cons y ys)
  show ?case
  proof (cases "entry_le x y")
    case True
    with Cons.prems have "\<forall>z \<in> set (y # ys). entry_le x z"
      by (auto intro: entry_le_trans)
    with True Cons.prems show ?thesis by (simp add: entry_le_def)
  next
    case False
    then have "entry_le y x" by (rule entry_le_total)
    with False Cons show ?thesis by (auto simp: entry_le_def set_push)
  qed
qed

lemma push_back: "sorted_wrt entry_le (x # q) \<Longrightarrow> push x q = x # q"
  by (cases q) (auto simp: entry_le_def)

lemma sorted_rescore:
  "sorted_wrt entry_le q \<Longrightarrow> sorted_wrt entry_le (rescore sf old new p sv js q)"
  by (induction js arbitrary: q) (auto simp: sorted_push)

lemma merge_nodes_queue: "queue (snd (merge_nodes sf u v rm)) = queue rm"
  by (simp add: merge_nodes_def Let_def)

lemma perform_merge_sorted:
  assumes "perform_merge sf rm vis n e current = Continue (rm', vis', n')"
    and "sorted_wrt entry_le (queue rm)"
  shows "sorted_wrt entry_le (queue rm')"
proof -
  let ?u = "resolve (parent rm) (edge_u (edges rm ! e))"
  let ?v = "resolve (parent rm) (edge_v (edges rm ! e))"
  show ?thesis
  proof (cases "?u = ?v \<or> \<not> RegionMergingVisitor_isValidMerge vis ?u ?v")
    case True
    with assms(1) have "queue rm' = queue rm"
      by (auto simp: perform_merge_def Let_def split: if_splits)
    with assms(2) show ?thesis by simp
  next
    case False
    obtain sv rm2 where m: "merge_nodes sf ?u ?v rm = (sv, rm2)"
      by (cases "merge_nodes sf ?u ?v rm") auto
    with merge_nodes_queue [of sf ?u ?v rm] have q2: "queue rm2 = queue rm" by simp
    from assms(1) False m have
      "queue rm' = rescore sf (edges rm) (edges rm2) (parent rm2) sv [0..<length (edges rm2)] (queue rm2)"
      by (auto simp: perform_merge_def Let_def split: sum.splits)
    with q2 assms(2) show ?thesis by (simp add: sorted_rescore)
  qed
qed

lemma merge_step_sorted:
  assumes "merge_step sf threshold (rm, vis, n) = Continue (rm', vis', n')"
    and "sorted_wrt entry_le (queue rm)"
  shows "sorted_wrt entry_le (queue rm')"
proof -
  from assms(1) obtain x rest where q: "queue rm = x # rest"
    by (cases "queue rm") (auto simp: merge_step_def)
  with assms(2) have r: "sorted_wrt entry_le rest" by simp
  obtain snapshot e where x: "x = (snapshot, e)" by (cases x) auto
  let ?cur = "current_score sf (edges rm ! e)"
  from assms(1) q x consider
      "rm' = rm\<lparr>queue := rest\<rparr>"
    | "rm' = rm\<lparr>queue := push (?cur, e) rest\<rparr>"
    | "perform_merge sf (rm\<lparr>queue := rest\<rparr>) vis n e ?cur = Continue (rm', vis', n')"
    by (auto simp: merge_step_def Let_def split: if_splits)
  then show ?thesis
  proof cases
    case 1
    with r show ?thesis by simp
  next
    case 2
    with r show ?thesis by (simp add: sorted_push)
  next
    case 3
    from perform_merge_sorted [OF 3] r show ?thesis by simp
  qed
qed

lemma merge_step_stop:
  assumes "merge_step sf t1 s = Stop s1" and "sorted_wrt entry_le (queue (fst s))"
  shows "s1 = s"
proof -
  obtain rm vis n where s: "s = (rm, vis, n)" by (cases s) auto
  show ?thesis
  proof (cases "queue rm")
    case Nil
    with assms(1) s show ?thesis by (simp add: merge_step_def)
  next
    case (Cons x rest)
    with assms(2) s have "push x rest = x # rest" by (simp add: push_back)
    with assms(1) s Cons show ?thesis
      by (auto simp: merge_step_def Let_def perform_merge_not_Stop split: if_splits prod.splits)
  qed
qed

lemma merge_step_mono:
  assumes "merge_step sf t1 s = Continue s'" and "t1 \<le> t2"
  shows "merge_step sf t2 s = Continue s'"
  using assms
  by (auto simp: merge_step_def Let_def split: list.splits if_splits prod.splits)

text \<open>
  The engine itself resumes: with the queue in order, stopping at a threshold and running
  on at a larger one, with the visitor the first run left, is the run at the larger
  threshold.
\<close>

lemma run_resumes:
  "t1 \<le> t2 \<Longrightarrow> sorted_wrt entry_le (queue (fst s)) \<Longrightarrow> run sf t1 s = Inr s1 \<Longrightarrow>
     run sf t2 s1 = run sf t2 s"
proof (induction sf t1 s rule: run.induct)
  case (1 sf t1 s)
  show ?case
  proof (cases "merge_step sf t1 s")
    case (Stop x)
    with "1.prems"(3) have "s1 = x" by simp
    with merge_step_stop [OF Stop "1.prems"(2)] show ?thesis by simp
  next
    case (Continue s')
    with "1.prems"(3) have r: "run sf t1 s' = Inr s1" by simp
    from Continue "1.prems"(2) have "sorted_wrt entry_le (queue (fst s'))"
      using merge_step_sorted [of sf t1 "fst s" "fst (snd s)" "snd (snd s)"
          "fst s'" "fst (snd s')" "snd (snd s')"]
      by simp
    from "1.IH" [OF Continue "1.prems"(1) this r] have "run sf t2 s1 = run sf t2 s'" .
    also from merge_step_mono [OF Continue "1.prems"(1)] have "run sf t2 s' = run sf t2 s"
      by simp
    finally show ?thesis .
  next
    case (Failed f)
    with "1.prems"(3) show ?thesis by simp
  qed
qed

lemma sorted_seed_queue:
  "sorted_wrt entry_le q \<Longrightarrow> sorted_wrt entry_le (seed_queue sf es js q)"
  by (induction js arbitrary: q) (auto simp: sorted_push)

lemma sorted_new_RegionMerging: "sorted_wrt entry_le (queue (new_RegionMerging sf es))"
  by (simp add: new_RegionMerging_def sorted_seed_queue)

end
